theory Spec2Isabelle
  imports Main "HOL-Library.Multiset"
begin

section \<open>Go runtime values used by the embedding\<close>

text \<open>
  A run-time panic of the Go program is a value of the model: every index and slice
  expression of the source is written with its bounds check.
\<close>

datatype go_panic = IndexOutOfRange | SliceBoundsOutOfRange | NilDereference

text \<open>\<open>s[lo:hi]\<close> on a string or slice whose capacity equals its length.\<close>

definition go_slice :: "'a list \<Rightarrow> int \<Rightarrow> int \<Rightarrow> go_panic + 'a list" where
  "go_slice s lo hi =
     (if 0 \<le> lo \<and> lo \<le> hi \<and> hi \<le> int (length s)
      then Inr (drop (nat lo) (take (nat hi) s))
      else Inl SliceBoundsOutOfRange)"

text \<open>\<open>s[i]\<close>.\<close>

definition go_index :: "'a list \<Rightarrow> int \<Rightarrow> go_panic + 'a" where
  "go_index s i =
     (if 0 \<le> i \<and> i < int (length s) then Inr (s ! nat i) else Inl IndexOutOfRange)"

text \<open>Conversion to \<open>int64\<close> and \<open>int64\<close> arithmetic results: two's complement wrap-around.\<close>

definition int64 :: "int \<Rightarrow> int" where
  "int64 x = (x + 2 ^ 63) mod 2 ^ 64 - 2 ^ 63"

section \<open>The functions of package \<open>strings\<close> the source calls\<close>

definition newline :: char where
  "newline = CHR 0x0A"

definition strings_HasPrefix :: "string \<Rightarrow> string \<Rightarrow> bool" where
  "strings_HasPrefix s pre = (take (length pre) s = pre)"

text \<open>
  \<open>strings.Split(s, sep)\<close> for a separator of one byte, which is all the source uses
  (\<open>":"\<close> and \<open>"\n"\<close>): the pieces between the separators, one more piece than there
  are separators, so never an empty slice.
\<close>

fun strings_Split :: "string \<Rightarrow> char \<Rightarrow> string list" where
  "strings_Split [] sep = [[]]"
| "strings_Split (c # cs) sep =
     (if c = sep then [] # strings_Split cs sep
      else (c # hd (strings_Split cs sep)) # tl (strings_Split cs sep))"

section \<open>Configuration (\<open>config.go\<close>)\<close>

record gitlabConfig =
  BaseURL :: string
  Token :: string
  Codespace :: string
  Name :: string
  Email :: string
  Projects :: string

section \<open>\<open>TransferGitURLToProject\<close>\<close>

text \<open>
  The package variable \<open>Config\<close> is a pointer, \<open>None\<close> while \<open>Setup\<close> has not run.
  The two \<open>if\<close> statements run one after the other, as in the source.
\<close>

definition TransferGitURLToProject :: "gitlabConfig option \<Rightarrow> string \<Rightarrow> go_panic + string" where
  "TransferGitURLToProject Config gitURL =
     (case (if strings_HasPrefix gitURL ''https://''
            then (case Config of
                    None \<Rightarrow> Inl NilDereference
                  | Some cfg \<Rightarrow>
                      go_slice gitURL (int (length (BaseURL cfg))) (int (length gitURL) - 4))
            else Inr [])
      of Inl p \<Rightarrow> Inl p
       | Inr url \<Rightarrow>
           if strings_HasPrefix gitURL ''git@''
           then (case go_slice gitURL 0 (int (length gitURL) - 4) of
                   Inl p \<Rightarrow> Inl p
                 | Inr url' \<Rightarrow> go_index (strings_Split url' CHR '':'') 1)
           else Inr url)"

section \<open>\<open>IsRunning\<close>\<close>

definition IsRunning :: "string \<Rightarrow> bool" where
  "IsRunning status =
     (if status = ''created'' \<or> status = ''pending'' \<or> status = ''running''
      then True else False)"

section \<open>The trace pattern \<open>re\<close>\<close>

text \<open>
  \<open>var re = regexp.MustCompile(`\x1b\[0m.*\[0K`)\<close>: the four bytes ESC \<open>[0m\<close>, then
  \<open>.*\<close> (greedy, any byte but a newline), then the three bytes \<open>[0K\<close>. All literal
  bytes of the pattern are ASCII, so matching on bytes and on runes agree.
\<close>

definition esc0m :: string where
  "esc0m = [CHR 0x1B, CHR ''['', CHR ''0'', CHR ''m'']"

definition clr0K :: string where
  "clr0K = ''[0K''"

text \<open>
  \<open>match_tail s\<close> matches \<open>.*\[0K\<close> at the start of \<open>s\<close> and returns what follows
  the match. The star is greedy: a match that lets \<open>.\<close> take one more byte is
  preferred, and \<open>[0K\<close> right here is tried only when there is none.
\<close>

fun match_tail :: "string \<Rightarrow> string option" where
  "match_tail [] = None"
| "match_tail (c # cs) =
     (case (if c = newline then None else match_tail cs) of
        Some rest \<Rightarrow> Some rest
      | None \<Rightarrow> if strings_HasPrefix (c # cs) clr0K then Some (drop 3 (c # cs)) else None)"

text \<open>The whole pattern at the start of \<open>s\<close>.\<close>

definition re_match :: "string \<Rightarrow> string option" where
  "re_match s = (if strings_HasPrefix s esc0m then match_tail (drop 4 s) else None)"

text \<open>
  \<open>re.ReplaceAllString(src, ``)\<close>: the leftmost match is cut out and the search goes on
  behind it; a byte at which no match starts is copied.
\<close>

function re_ReplaceAllString :: "string \<Rightarrow> string" where
  "re_ReplaceAllString [] = []"
| "re_ReplaceAllString (c # cs) =
     (case re_match (c # cs) of
        Some rest \<Rightarrow> re_ReplaceAllString rest
      | None \<Rightarrow> c # re_ReplaceAllString cs)"
  by pat_completeness auto
termination
proof (relation "measure length")
  show "wf (measure length)" by simp
next
  fix c :: char and cs rest :: string
  assume m: "re_match (c # cs) = Some rest"
  have tail: "match_tail s = Some r \<Longrightarrow> length r < length s" for s r
    by (induction s arbitrary: r) (auto split: option.splits if_splits)
  from m have "length rest < length (c # cs)"
    by (auto simp: re_match_def split: if_splits dest!: tail)
  then show "(rest, c # cs) \<in> measure length" by simp
next
  fix c :: char and cs :: string
  show "(cs, c # cs) \<in> measure length" by simp
qed

section \<open>The remote service\<close>

text \<open>
  Group identifiers have Go type \<open>any\<close>: the roots are path strings, the identifiers
  of descendant groups are the integers of \<open>sg.ID\<close>.
\<close>

datatype GroupID = GroupPath string | GroupNum int

record ListOptions =
  PerPage :: int
  Page :: int

record Project =
  PathWithNamespace :: string

record Group =
  ID :: int

text \<open>
  What one list call gives back: the items with \<open>resp.NextPage\<close>, or a non-nil \<open>err\<close>.
\<close>

datatype 'a listing = Listed "'a list" int | ListError string

text \<open>
  The client is the server seen through it: what each list call answers to a request.
\<close>

record Client =
  ListGroupProjects :: "GroupID \<Rightarrow> ListOptions \<Rightarrow> Project listing"
  ListDescendantGroups :: "GroupID \<Rightarrow> ListOptions \<Rightarrow> Group listing"

text \<open>
  Modelled from the spec: \<open>utils.PrintErr\<close>, which is not among the sources, reports
  (prints) the error it is given and returns, so that the \<open>break\<close> behind each of its
  calls is reached. The effects of the crawler besides its result are the requests it
  sends and these reports.
\<close>

datatype effect =
    ListGroupProjectsCall GroupID ListOptions
  | ListDescendantGroupsCall GroupID ListOptions
  | PrintErr string

definition perPage :: int where
  "perPage = 100"

section \<open>\<open>getGroupProjects\<close> and \<open>getAllSubgroups\<close>\<close>

text \<open>
  The \<open>for\<close> loops run until the server answers \<open>NextPage == 0\<close> or an error; a server
  that never does keeps them running, which is the value \<open>None\<close>.
\<close>

partial_function (option) getGroupProjects_loop ::
  "Client \<Rightarrow> GroupID \<Rightarrow> ListOptions \<Rightarrow> string list \<Rightarrow> effect list
     \<Rightarrow> (string list \<times> effect list) option" where
  "getGroupProjects_loop client groupID opt projects log =
     (case ListGroupProjects client groupID opt of
        ListError err \<Rightarrow>
          Some (projects, log @ [ListGroupProjectsCall groupID opt, PrintErr err])
      | Listed ps NextPage \<Rightarrow>
          if NextPage = 0
          then Some (projects @ map PathWithNamespace ps,
                     log @ [ListGroupProjectsCall groupID opt])
          else getGroupProjects_loop client groupID (opt\<lparr>Page := NextPage\<rparr>)
                 (projects @ map PathWithNamespace ps)
                 (log @ [ListGroupProjectsCall groupID opt]))"

declare getGroupProjects_loop.simps [code]

definition getGroupProjects :: "Client \<Rightarrow> GroupID \<Rightarrow> (string list \<times> effect list) option" where
  "getGroupProjects client groupID =
     getGroupProjects_loop client groupID \<lparr>PerPage = perPage, Page = 1\<rparr> [] []"

partial_function (option) getAllSubgroups_loop ::
  "Client \<Rightarrow> GroupID \<Rightarrow> ListOptions \<Rightarrow> GroupID list \<Rightarrow> effect list
     \<Rightarrow> (GroupID list \<times> effect list) option" where
  "getAllSubgroups_loop client groupID opt allSubgroups log =
     (case ListDescendantGroups client groupID opt of
        ListError err \<Rightarrow>
          Some (allSubgroups, log @ [ListDescendantGroupsCall groupID opt, PrintErr err])
      | Listed subgroups NextPage \<Rightarrow>
          if NextPage = 0
          then Some (allSubgroups @ map (\<lambda>sg. GroupNum (Group.ID sg)) subgroups,
                     log @ [ListDescendantGroupsCall groupID opt])
          else getAllSubgroups_loop client groupID (opt\<lparr>Page := NextPage\<rparr>)
                 (allSubgroups @ map (\<lambda>sg. GroupNum (Group.ID sg)) subgroups)
                 (log @ [ListDescendantGroupsCall groupID opt]))"

declare getAllSubgroups_loop.simps [code]

definition getAllSubgroups :: "Client \<Rightarrow> GroupID \<Rightarrow> (GroupID list \<times> effect list) option" where
  "getAllSubgroups client groupID =
     getAllSubgroups_loop client groupID \<lparr>PerPage = perPage, Page = 1\<rparr> [] []"

section \<open>\<open>getAllGroupProjects\<close> and \<open>Projects\<close>\<close>

text \<open>
  The first loop: each root, then its subgroups, appended to \<open>allGroups\<close>. The calls
  of \<open>getAllSubgroups\<close> run one after the other, so their requests and reports make one
  log.
\<close>

fun allGroups_loop ::
  "Client \<Rightarrow> GroupID list \<Rightarrow> GroupID list \<Rightarrow> effect list
     \<Rightarrow> (GroupID list \<times> effect list) option" where
  "allGroups_loop client [] allGroups log = Some (allGroups, log)"
| "allGroups_loop client (g # groups) allGroups log =
     (case getAllSubgroups client g of
        None \<Rightarrow> None
      | Some (subgroups, calls) \<Rightarrow>
          allGroups_loop client groups ((allGroups @ [g]) @ subgroups) (log @ calls))"

text \<open>
  The second loop starts one goroutine for each element of \<open>allGroups\<close>; each appends
  its whole result to \<open>allProjects\<close> under the mutex. The order in which the goroutines
  take the mutex is not determined: \<open>orders ws\<close> lists every order of the results
  \<open>ws\<close> of the goroutines.
\<close>

fun insert_anywhere :: "'a \<Rightarrow> 'a list \<Rightarrow> 'a list list" where
  "insert_anywhere x [] = [[x]]"
| "insert_anywhere x (y # ys) = (x # y # ys) # map ((#) y) (insert_anywhere x ys)"

fun orders :: "'a list \<Rightarrow> 'a list list" where
  "orders [] = [[]]"
| "orders (w # ws) = concat (map (insert_anywhere w) (orders ws))"

text \<open>
  What a crawl does and gives: the requests and reports of the first loop, in order;
  for each goroutine of the second loop, in the order in which the goroutines are
  started, the requests and reports of its call of \<open>getGroupProjects\<close> (how the requests
  of different goroutines interleave is not determined, and not recorded); and the lists
  that \<open>allProjects\<close> can be when it is returned.
\<close>

record crawl =
  resolve_log :: "effect list"
  worker_logs :: "effect list list"
  allProjects :: "string list set"

text \<open>
  \<open>wg.Wait()\<close> returns when every goroutine is done, so the function returns only if the
  resolution of the subgroups and every goroutine's pagination end; it then returns one
  of the lists in \<open>allProjects\<close>.
\<close>

definition getAllGroupProjects :: "Client \<Rightarrow> GroupID list \<Rightarrow> crawl option" where
  "getAllGroupProjects client groups =
     (case allGroups_loop client groups [] [] of
        None \<Rightarrow> None
      | Some (allGroups, log) \<Rightarrow>
          (case those (map (getGroupProjects client) allGroups) of
             None \<Rightarrow> None
           | Some workers \<Rightarrow>
               Some \<lparr>resolve_log = log,
                     worker_logs = map snd workers,
                     allProjects = set (map concat (orders (map fst workers)))\<rparr>))"

text \<open>
  The number of goroutines in \<open>logs\<close> that were started for the group \<open>g\<close>: those whose
  first request is for the first page of the projects of \<open>g\<close>.
\<close>

definition started_for :: "GroupID \<Rightarrow> effect list list \<Rightarrow> nat" where
  "started_for g logs =
     length (filter (\<lambda>l. take 1 l = [ListGroupProjectsCall g \<lparr>PerPage = perPage, Page = 1\<rparr>]) logs)"

text \<open>\<open>NewClient()\<close> is the parameter \<open>client\<close>; \<open>syncAll\<close> is not used by the body.\<close>

definition Projects :: "Client \<Rightarrow> bool \<Rightarrow> crawl option" where
  "Projects client syncAll =
     getAllGroupProjects client [GroupPath ''linux'', GroupPath ''kubernetes'']"

section \<open>\<open>DoTrace\<close> and \<open>TraceRunningJobs\<close>\<close>

record Job =
  ID :: int
  Name :: string
  Status :: string

text \<open>
  What a call of the client gives back to \<open>DoTrace\<close>: the value with a nil \<open>err\<close>, or
  a non-nil \<open>err\<close> together with the value returned beside it (\<open>None\<close> is nil).
\<close>

datatype 'a fetched = Fetched 'a | FetchError string "'a option"

text \<open>
  Package \<open>utils\<close> is not among the sources, so its two functions that \<open>DoTrace\<close> calls
  are parameters: whether \<open>utils.Check\<close> returns to its caller when it is given a
  non-nil error (with a nil error it returns and does nothing else), and the string
  \<open>utils.RandomColor\<close> makes of the job's label.
\<close>

record utils =
  Check_returns :: bool
  RandomColor :: "string \<Rightarrow> string"

datatype event = GetTraceFile int | GetJob int | Println string | Check string

text \<open>
  How far a run got: \<open>DoTrace\<close> returned nil; it waits for the next tick (the run was
  followed for finitely many ticks only); \<open>utils.Check\<close> did not return; a panic.
\<close>

datatype outcome = Returned | Ticking | CheckNoReturn | Panicked go_panic

text \<open>The variables of \<open>DoTrace\<close> that change from tick to tick.\<close>

record TraceState =
  offset :: int
  firstTail :: bool
  job :: "Job option"

text \<open>\<open>x, _, err := call(...); utils.Check(err)\<close>\<close>

definition checked :: "utils \<Rightarrow> 'a fetched \<Rightarrow> event list \<times> (outcome + 'a option)" where
  "checked u r =
     (case r of
        Fetched x \<Rightarrow> ([], Inr (Some x))
      | FetchError err x \<Rightarrow>
          ([Check err], if Check_returns u then Inr x else Inl CheckNoReturn))"

text \<open>
  From \<open>strings.Split\<close> to \<open>offset = int64(length)\<close>: the lines to print and the new
  state. \<open>len(lines)\<close> is a Go \<open>int\<close>, which \<open>int64\<close> holds; the subtraction wraps.
  The slice \<open>lines[offset:]\<close> is taken before the first line is printed.
\<close>

definition tick_lines :: "int \<Rightarrow> TraceState \<Rightarrow> string \<Rightarrow> go_panic + string list \<times> TraceState" where
  "tick_lines tailLine st buffer =
     (let lines = strings_Split buffer newline;
          length' = int (length lines)
      in case (if firstTail st
               then go_slice lines (max (int64 (length' - tailLine)) 0) (int (length lines) - 1)
               else Inr lines)
         of Inl p \<Rightarrow> Inl p
          | Inr lines \<Rightarrow>
              (case go_slice lines (offset st) (int (length lines)) of
                 Inl p \<Rightarrow> Inl p
               | Inr new \<Rightarrow> Inr (new, st\<lparr>offset := length', firstTail := False\<rparr>)))"

text \<open>
  The loop over the ticker. Each element of \<open>ticks\<close> is one tick: what \<open>GetTraceFile\<close>
  answers at that tick and what \<open>GetJob\<close> answers if the tick gets that far. The
  ticker never stops, so the loop ends only by \<open>return nil\<close>, a panic or inside
  \<open>utils.Check\<close>; when \<open>ticks\<close> is used up it is waiting for the next tick.
  \<open>io.ReadAll\<close> on a \<open>*bytes.Reader\<close> returns no error, and panics on a nil one;
  \<open>job.ID\<close> panics on a nil job. The log holds the calls and the printed lines in the
  order in which they happen.
\<close>

fun DoTrace_loop ::
  "utils \<Rightarrow> string \<Rightarrow> int \<Rightarrow> TraceState \<Rightarrow> event list
     \<Rightarrow> (string fetched \<times> Job fetched) list \<Rightarrow> event list \<times> TraceState \<times> outcome" where
  "DoTrace_loop u prefix tailLine st log [] = (log, st, Ticking)"
| "DoTrace_loop u prefix tailLine st log ((trace, job') # ticks) =
     (case job st of
        None \<Rightarrow> (log, st, Panicked NilDereference)
      | Some j \<Rightarrow>
          (case checked u trace of
             (c1, Inl out) \<Rightarrow> (log @ GetTraceFile (ID j) # c1, st, out)
           | (c1, Inr None) \<Rightarrow> (log @ GetTraceFile (ID j) # c1, st, Panicked NilDereference)
           | (c1, Inr (Some buffer)) \<Rightarrow>
               (case tick_lines tailLine st buffer of
                  Inl p \<Rightarrow> (log @ GetTraceFile (ID j) # c1, st, Panicked p)
                | Inr (new, st') \<Rightarrow>
                    (let log' = log @ GetTraceFile (ID j) # c1 @
                                map (\<lambda>line. Println (re_ReplaceAllString (prefix @ line))) new
                     in if \<not> IsRunning (Status j) then (log', st', Returned)
                        else (case checked u job' of
                                (c2, Inl out) \<Rightarrow> (log' @ GetJob (ID j) # c2, st', out)
                              | (c2, Inr j') \<Rightarrow>
                                  DoTrace_loop u prefix tailLine (st'\<lparr>job := j'\<rparr>)
                                    (log' @ GetJob (ID j) # c2) ticks)))))"

text \<open>
  \<open>DoTrace\<close> itself: the prefix is made once, from the name of the job it is called
  with (a job that is not nil), and the loop starts with \<open>offset = 0\<close> and
  \<open>firstTail = true\<close>.
\<close>

definition DoTrace ::
  "utils \<Rightarrow> Job \<Rightarrow> int \<Rightarrow> (string fetched \<times> Job fetched) list
     \<Rightarrow> event list \<times> TraceState \<times> outcome" where
  "DoTrace u j tailLine ticks =
     DoTrace_loop u (RandomColor u (''['' @ Name j @ ''] '')) tailLine
       \<lparr>offset = 0, firstTail = True, job = Some j\<rparr> [] ticks"

text \<open>
  A goroutine that \<open>TraceRunningJobs\<close> has started: the prefix and the variables of its
  \<open>DoTrace\<close>, what the server will answer at its ticks to come, and whether its
  \<open>DoTrace\<close> has returned and \<open>wg.Done()\<close> was called.
\<close>

record goroutine =
  g_prefix :: string
  g_state :: TraceState
  g_ticks :: "(string fetched \<times> Job fetched) list"
  g_returned :: bool

text \<open>
  The goroutines run in one process. The schedule names, step by step, the goroutine
  whose ticker fires next; that goroutine runs the body of its loop once, and what it
  calls and prints goes to the one log of the process. A tick is taken as one step: a
  process that ends while another goroutine is inside a tick is not told from one that
  ends before that tick. A step for a goroutine that has returned, or that is not among
  those started, or whose answers are used up, does nothing. The goroutines do not
  recover, so a panic in one of them ends the process, whatever the others had left to
  do; and the run is followed no further when a goroutine enters a \<open>utils.Check\<close> that
  does not return, as what becomes of the others then is up to \<open>utils.Check\<close>.
  \<open>wg.Wait()\<close> returns once every goroutine has returned; when the schedule is used up
  before that, the process is waiting for the next tick.
\<close>

fun goroutines_run ::
  "utils \<Rightarrow> int \<Rightarrow> goroutine list \<Rightarrow> event list \<Rightarrow> nat list
     \<Rightarrow> event list \<times> goroutine list \<times> outcome" where
  "goroutines_run u tailLine gs log [] =
     (log, gs, if list_all g_returned gs then Returned else Ticking)"
| "goroutines_run u tailLine gs log (i # schedule) =
     (if list_all g_returned gs then (log, gs, Returned)
      else if length gs \<le> i \<or> g_returned (gs ! i) \<or> g_ticks (gs ! i) = []
      then goroutines_run u tailLine gs log schedule
      else (case DoTrace_loop u (g_prefix (gs ! i)) tailLine (g_state (gs ! i)) log
                   [hd (g_ticks (gs ! i))] of
              (log', st', Ticking) \<Rightarrow>
                goroutines_run u tailLine
                  (gs[i := (gs ! i)\<lparr>g_state := st', g_ticks := tl (g_ticks (gs ! i))\<rparr>])
                  log' schedule
            | (log', st', Returned) \<Rightarrow>
                goroutines_run u tailLine
                  (gs[i := (gs ! i)\<lparr>g_state := st', g_ticks := tl (g_ticks (gs ! i)),
                                     g_returned := True\<rparr>])
                  log' schedule
            | (log', st', out) \<Rightarrow>
                (log', gs[i := (gs ! i)\<lparr>g_state := st', g_ticks := tl (g_ticks (gs ! i))\<rparr>],
                 out)))"

text \<open>
  \<open>TraceRunningJobs\<close>: one goroutine for each running job, in the order of \<open>jobs\<close>,
  started as \<open>DoTrace\<close> starts, each with the answers of the server for that job.
  \<open>wg.Done()\<close> is called after \<open>DoTrace\<close> has returned, so \<open>wg.Wait()\<close> returns, and
  \<open>allDone\<close> with it, only if every one returned. The result is the log of the process,
  how far the process got, and the value returned if it returned.
\<close>

definition TraceRunningJobs ::
  "utils \<Rightarrow> (Job \<times> (string fetched \<times> Job fetched) list) list \<Rightarrow> int \<Rightarrow> nat list
     \<Rightarrow> event list \<times> outcome \<times> bool option" where
  "TraceRunningJobs u jobs tailLine schedule =
     (let running = filter (\<lambda>(j, ticks). IsRunning (Status j)) jobs;
          started = map (\<lambda>(j, ticks).
                      \<lparr>g_prefix = RandomColor u (''['' @ Name j @ ''] ''),
                       g_state = \<lparr>offset = 0, firstTail = True, job = Some j\<rparr>,
                       g_ticks = ticks, g_returned = False\<rparr>) running
      in case goroutines_run u tailLine started [] schedule of
           (log, gs, out) \<Rightarrow>
             (log, out, if out = Returned then Some (running = []) else None))"

text \<open>
  What a goroutine has left to do: the run of its loop from where it is, with the
  answers it has not used yet, left to itself.
\<close>

definition remaining :: "utils \<Rightarrow> int \<Rightarrow> goroutine \<Rightarrow> event list \<times> TraceState \<times> outcome" where
  "remaining u tailLine g = DoTrace_loop u (g_prefix g) tailLine (g_state g) [] (g_ticks g)"

text \<open>The lines printed, in order.\<close>

fun printed :: "event list \<Rightarrow> string list" where
  "printed [] = []"
| "printed (Println s # evs) = s # printed evs"
| "printed (e # evs) = printed evs"

text \<open>The three parts of what a run gives.\<close>

definition log_of :: "event list \<times> 's \<times> outcome \<Rightarrow> event list" where
  "log_of r = fst r"

definition state_of :: "event list \<times> 's \<times> outcome \<Rightarrow> 's" where
  "state_of r = fst (snd r)"

definition outcome_of :: "event list \<times> 's \<times> outcome \<Rightarrow> outcome" where
  "outcome_of r = snd (snd r)"

text \<open>The number of calls of \<open>GetTraceFile\<close> and of \<open>GetJob\<close> in a log.\<close>

fun trace_reads :: "event list \<Rightarrow> nat" where
  "trace_reads [] = 0"
| "trace_reads (GetTraceFile i # evs) = Suc (trace_reads evs)"
| "trace_reads (e # evs) = trace_reads evs"

fun job_reads :: "event list \<Rightarrow> nat" where
  "job_reads [] = 0"
| "job_reads (GetJob i # evs) = Suc (job_reads evs)"
| "job_reads (e # evs) = job_reads evs"

section \<open>Substrings\<close>

text \<open>\<open>occurs_in pat s\<close>: \<open>pat\<close> is a substring of \<open>s\<close>.\<close>

fun occurs_in :: "string \<Rightarrow> string \<Rightarrow> bool" where
  "occurs_in pat [] = (pat = [])"
| "occurs_in pat (c # cs) = (strings_HasPrefix (c # cs) pat \<or> occurs_in pat cs)"

section \<open>Traces that grow\<close>

text \<open>A trace of whole lines: each line followed by a newline.\<close>

definition unlines :: "string list \<Rightarrow> string" where
  "unlines ls = concat (map (\<lambda>l. l @ [newline]) ls)"

text \<open>
  A trace that only grows: \<open>grown t ds\<close> are the traces of the polls after one that
  read \<open>t\<close>, when the texts \<open>ds\<close> are appended one after the other between the polls.
\<close>

fun grown :: "string \<Rightarrow> string list \<Rightarrow> string list" where
  "grown t [] = []"
| "grown t (d # ds) = (t @ d) # grown (t @ d) ds"

text \<open>
  The pieces of each poll's trace from the index on that is the number of pieces of the
  poll before, where \<open>prev\<close> is the trace of the poll before the first of the list.
\<close>

fun later_lines :: "string \<Rightarrow> string list \<Rightarrow> string list" where
  "later_lines prev [] = []"
| "later_lines prev (cur # rest) =
     drop (length (strings_Split prev newline)) (strings_Split cur newline) @ later_lines cur rest"

text \<open>Ticks at which every call succeeds: the traces read and the jobs fetched.\<close>

definition polls :: "string list \<Rightarrow> Job list \<Rightarrow> (string fetched \<times> Job fetched) list" where
  "polls traces jobs = zip (map Fetched traces) (map Fetched jobs)"

section \<open>Finite sequences of answers to list calls\<close>

text \<open>
  \<open>serves call p answers\<close>: asked for page \<open>p\<close> with page size \<open>perPage\<close>, and then for
  each page the answer before named as next, the list call gives exactly \<open>answers\<close>, a
  finite sequence that ends with the first answer that is an error or has
  \<open>NextPage = 0\<close>.
\<close>

fun serves :: "(ListOptions \<Rightarrow> 'a listing) \<Rightarrow> int \<Rightarrow> 'a listing list \<Rightarrow> bool" where
  "serves call p [] = False"
| "serves call p (a # rest) =
     (call \<lparr>PerPage = perPage, Page = p\<rparr> = a \<and>
      (case a of
         ListError err \<Rightarrow> rest = []
       | Listed xs NextPage \<Rightarrow> if NextPage = 0 then rest = [] else serves call NextPage rest))"

fun items_of :: "'a listing \<Rightarrow> 'a list" where
  "items_of (Listed xs NextPage) = xs"
| "items_of (ListError err) = []"

text \<open>The requests and error reports that go with such a sequence of answers.\<close>

fun effects_of :: "(ListOptions \<Rightarrow> effect) \<Rightarrow> int \<Rightarrow> 'a listing list \<Rightarrow> effect list" where
  "effects_of call p [] = []"
| "effects_of call p (Listed xs NextPage # rest) =
     call \<lparr>PerPage = perPage, Page = p\<rparr> # effects_of call NextPage rest"
| "effects_of call p (ListError err # rest) =
     [call \<lparr>PerPage = perPage, Page = p\<rparr>, PrintErr err]"

text \<open>A page without error, as the pair of its items and its \<open>NextPage\<close>.\<close>

fun page :: "'a list \<times> int \<Rightarrow> 'a listing" where
  "page (xs, NextPage) = Listed xs NextPage"

text \<open>What a finite sequence of answers lists: group identifiers, project paths.\<close>

definition listed_groups :: "Group listing list \<Rightarrow> GroupID list" where
  "listed_groups answers = map (\<lambda>sg. GroupNum (Group.ID sg)) (concat (map items_of answers))"

definition listed_paths :: "Project listing list \<Rightarrow> string list" where
  "listed_paths answers = map PathWithNamespace (concat (map items_of answers))"

text \<open>
  Each root followed by the groups listed for it, where \<open>sub g\<close> is the sequence of
  answers to the requests for the descendants of \<open>g\<close>.
\<close>

definition roots_with_descendants ::
  "(GroupID \<Rightarrow> Group listing list) \<Rightarrow> GroupID list \<Rightarrow> GroupID list" where
  "roots_with_descendants sub groups = concat (map (\<lambda>g. g # listed_groups (sub g)) groups)"

text \<open>
  Two servers for the examples: one where a root is also a descendant of another root,
  and one where the project listing of one subgroup, and the second page of the
  descendants of another group, fail.
\<close>

definition overlapping_roots_client :: Client where
  "overlapping_roots_client =
     \<lparr>ListGroupProjects = (\<lambda>g opt.
        if g = GroupNum 2
        then Listed [\<lparr>PathWithNamespace = ''g1/g2/a''\<rparr>, \<lparr>PathWithNamespace = ''g1/g2/b''\<rparr>] 0
        else Listed [] 0),
      ListDescendantGroups = (\<lambda>g opt.
        if g = GroupPath ''g1'' then Listed [\<lparr>Group.ID = 2\<rparr>] 0 else Listed [] 0)\<rparr>"

definition failing_group_client :: Client where
  "failing_group_client =
     \<lparr>ListGroupProjects = (\<lambda>g opt.
        if g = GroupNum 2
        then Listed [\<lparr>PathWithNamespace = ''g1/g2/a''\<rparr>, \<lparr>PathWithNamespace = ''g1/g2/b''\<rparr>] 0
        else if g = GroupNum 3 then ListError ''500''
        else Listed [] 0),
      ListDescendantGroups = (\<lambda>g opt.
        if g = GroupPath ''g1'' then Listed [\<lparr>Group.ID = 2\<rparr>, \<lparr>Group.ID = 3\<rparr>] 0
        else if g = GroupPath ''g9''
        then (if Page opt = 1 then Listed [\<lparr>Group.ID = 5\<rparr>] 2 else ListError ''502'')
        else Listed [] 0)\<rparr>"

section \<open>Facts about \<open>strings.Split\<close>\<close>

lemma Split_no_sep: "sep \<notin> set s \<Longrightarrow> strings_Split s sep = [s]"
  by (induction s) auto

lemma Split_not_Nil [simp]: "strings_Split s sep \<noteq> []"
  by (induction s) auto

section \<open>\<open>TransferGitURLToProject\<close> on SSH addresses without a colon\<close>

text \<open>
  C10. An address that starts with \<open>git@\<close> and has no \<open>:\<close> is split into a single
  piece, so \<open>strings.Split(url, ":")[1]\<close> is out of range: the function panics and returns
  nothing, whatever the configuration is.
\<close>

theorem TransferGitURLToProject_no_colon:
  assumes "strings_HasPrefix gitURL ''git@''" and "CHR '':'' \<notin> set gitURL"
  shows "TransferGitURLToProject Config gitURL = Inl IndexOutOfRange"
proof -
  from assms(1) have len: "4 \<le> length gitURL"
    by (auto simp: strings_HasPrefix_def dest: arg_cong [where f = length])
  from assms(1) have nh: "\<not> strings_HasPrefix gitURL ''https://''"
    by (cases gitURL) (auto simp: strings_HasPrefix_def)
  let ?url = "take (length gitURL - 4) gitURL"
  from len have sl: "go_slice gitURL 0 (int (length gitURL) - 4) = Inr ?url"
    by (simp add: go_slice_def nat_diff_distrib')
  from assms(2) have "CHR '':'' \<notin> set ?url"
    by (auto dest: in_set_takeD)
  then have "strings_Split ?url CHR '':'' = [?url]"
    by (rule Split_no_sep)
  with assms(1) nh sl show ?thesis
    by (simp add: TransferGitURLToProject_def go_index_def)
qed

theorem TransferGitURLToProject_no_colon_witness:
  "strings_HasPrefix ''git@gitlab.com/Ackerr/lab.git'' ''git@''
   \<and> CHR '':'' \<notin> set ''git@gitlab.com/Ackerr/lab.git''
   \<and> TransferGitURLToProject None ''git@gitlab.com/Ackerr/lab.git'' = Inl IndexOutOfRange"
  using TransferGitURLToProject_no_colon [of "''git@gitlab.com/Ackerr/lab.git''" None]
  by (simp add: strings_HasPrefix_def)

section \<open>The pagination loops\<close>

lemma getGroupProjects_loop_serves:
  "serves (ListGroupProjects client g) p answers \<Longrightarrow>
   getGroupProjects_loop client g \<lparr>PerPage = perPage, Page = p\<rparr> projects log =
     Some (projects @ map PathWithNamespace (concat (map items_of answers)),
           log @ effects_of (ListGroupProjectsCall g) p answers)"
proof (induction answers arbitrary: p projects log)
  case Nil
  then show ?case by simp
next
  case (Cons a rest)
  show ?case
  proof (cases a)
    case (ListError err)
    with Cons.prems show ?thesis
      by (subst getGroupProjects_loop.simps) simp
  next
    case (Listed ps NextPage)
    show ?thesis
    proof (cases "NextPage = 0")
      case True
      with Listed Cons.prems show ?thesis
        by (subst getGroupProjects_loop.simps) simp
    next
      case False
      with Listed Cons.prems have "serves (ListGroupProjects client g) NextPage rest"
        by simp
      from Cons.IH [OF this] False Listed Cons.prems show ?thesis
        by (subst getGroupProjects_loop.simps) simp
    qed
  qed
qed

lemma items_of_pages: "concat (map items_of (map page pages)) = concat (map fst pages)"
  by (induction pages) auto

lemma items_of_pages_error:
  "concat (map items_of (map page pages @ [ListError err])) = concat (map fst pages)"
  by (induction pages) auto

lemma effects_of_pages:
  "effects_of call p (map page pages) =
     map (\<lambda>q. call \<lparr>PerPage = perPage, Page = q\<rparr>) (butlast (p # map snd pages))"
  by (induction pages arbitrary: p) auto

lemma effects_of_pages_error:
  "effects_of call p (map page pages @ [ListError err]) =
     map (\<lambda>q. call \<lparr>PerPage = perPage, Page = q\<rparr>) (p # map snd pages) @ [PrintErr err]"
  by (induction pages arbitrary: p) auto

text \<open>
  A server that answers a request by its page alone cannot serve a finite sequence in
  which a page comes twice: the loop would go round for ever.
\<close>

lemma serves_unique: "serves call p a \<Longrightarrow> serves call p b \<Longrightarrow> a = b"
proof (induction a arbitrary: p b)
  case Nil
  then show ?case by simp
next
  case (Cons x a)
  from Cons.prems obtain y b' where b: "b = y # b'" by (cases b) auto
  with Cons.prems have xy: "x = y" by auto
  show ?case
  proof (cases x)
    case (ListError err)
    with Cons.prems b xy show ?thesis by auto
  next
    case (Listed xs n)
    show ?thesis
    proof (cases "n = 0")
      case True
      with Listed Cons.prems b xy show ?thesis by auto
    next
      case False
      with Listed Cons.prems b xy have "serves call n a" "serves call n b'" by auto
      then have "a = b'" by (rule Cons.IH)
      with b xy show ?thesis by simp
    qed
  qed
qed

lemma serves_visited:
  "serves call p (map page pages) \<Longrightarrow> q \<in> set (butlast (p # map snd pages)) \<Longrightarrow>
   \<exists>pre post. pages = pre @ post \<and> post \<noteq> [] \<and> serves call q (map page post)"
proof (induction pages arbitrary: p)
  case Nil
  then show ?case by simp
next
  case (Cons a pages)
  show ?case
  proof (cases "q = p")
    case True
    with Cons.prems show ?thesis by (intro exI [of _ "[]"] exI [of _ "a # pages"]) simp
  next
    case False
    with Cons.prems have q: "q \<in> set (butlast (snd a # map snd pages))" and ne: "pages \<noteq> []"
      by (auto split: if_splits)
    from Cons.prems(1) ne have "serves call (snd a) (map page pages)"
      by (cases a) (auto split: if_splits)
    from Cons.IH [OF this q] obtain pre post where
      "pages = pre @ post" "post \<noteq> []" "serves call q (map page post)" by blast
    then show ?thesis by (intro exI [of _ "a # pre"] exI [of _ post]) simp
  qed
qed

lemma serves_distinct:
  "serves call p (map page pages) \<Longrightarrow> distinct (butlast (p # map snd pages))"
proof (induction pages arbitrary: p)
  case Nil
  then show ?case by simp
next
  case (Cons a pages)
  show ?case
  proof (cases "pages = []")
    case True
    then show ?thesis by simp
  next
    case False
    with Cons.prems have next_ok: "serves call (snd a) (map page pages)"
      by (cases a) (auto split: if_splits)
    have "p \<notin> set (butlast (snd a # map snd pages))"
    proof
      assume "p \<in> set (butlast (snd a # map snd pages))"
      from serves_visited [OF next_ok this] obtain pre post where
        pp: "pages = pre @ post" and s: "serves call p (map page post)" by blast
      from serves_unique [OF Cons.prems s] have "map page (a # pages) = map page post" .
      then have "length (a # pages) = length post"
        by (metis length_map)
      with pp show False by simp
    qed
    with Cons.IH [OF next_ok] False show ?thesis by simp
  qed
qed

lemma getAllSubgroups_loop_serves:
  "serves (ListDescendantGroups client g) p answers \<Longrightarrow>
   getAllSubgroups_loop client g \<lparr>PerPage = perPage, Page = p\<rparr> subs log =
     Some (subs @ map (\<lambda>sg. GroupNum (Group.ID sg)) (concat (map items_of answers)),
           log @ effects_of (ListDescendantGroupsCall g) p answers)"
proof (induction answers arbitrary: p subs log)
  case Nil
  then show ?case by simp
next
  case (Cons a rest)
  show ?case
  proof (cases a)
    case (ListError err)
    with Cons.prems show ?thesis
      by (subst getAllSubgroups_loop.simps) simp
  next
    case (Listed sgs NextPage)
    show ?thesis
    proof (cases "NextPage = 0")
      case True
      with Listed Cons.prems show ?thesis
        by (subst getAllSubgroups_loop.simps) simp
    next
      case False
      with Listed Cons.prems have "serves (ListDescendantGroups client g) NextPage rest"
        by simp
      from Cons.IH [OF this] False Listed Cons.prems show ?thesis
        by (subst getAllSubgroups_loop.simps) simp
    qed
  qed
qed

text \<open>
  C6. When the server answers the requests for a group's projects with a finite sequence
  of pages, each but the last naming the next page and the last with \<open>NextPage = 0\<close>,
  \<open>getGroupProjects\<close> ends, its first request is for page 1 with page size 100, it
  sends one request for each page of the sequence and none twice, and it returns the
  paths of the pages' projects in the order of the pages.
\<close>

theorem getGroupProjects_concatenates_pages:
  assumes "serves (ListGroupProjects client g) 1 (map page pages)"
  shows "getGroupProjects client g =
           Some (map PathWithNamespace (concat (map fst pages)),
                 map (\<lambda>p. ListGroupProjectsCall g \<lparr>PerPage = 100, Page = p\<rparr>)
                   (butlast (1 # map snd pages)))
         \<and> distinct (butlast (1 # map snd pages))"
proof -
  from getGroupProjects_loop_serves [OF assms, of "[]" "[]"]
  have "getGroupProjects client g =
          Some (map PathWithNamespace (concat (map fst pages)),
                map (\<lambda>p. ListGroupProjectsCall g \<lparr>PerPage = 100, Page = p\<rparr>)
                  (butlast (1 # map snd pages)))"
    unfolding getGroupProjects_def items_of_pages effects_of_pages
    by (simp add: perPage_def)
  with serves_distinct [OF assms] show ?thesis by simp
qed

theorem getGroupProjects_concatenates_pages_witness:
  "serves (ListGroupProjects
            \<lparr>ListGroupProjects = (\<lambda>g opt.
                if Page opt = 1 then Listed (replicate 100 \<lparr>PathWithNamespace = ''g/a''\<rparr>) 2
                else if Page opt = 2 then Listed (replicate 100 \<lparr>PathWithNamespace = ''g/b''\<rparr>) 3
                else Listed (replicate 7 \<lparr>PathWithNamespace = ''g/c''\<rparr>) 0),
             ListDescendantGroups = (\<lambda>g opt. Listed [] 0)\<rparr> (GroupPath ''g'')) 1
     (map page [(replicate 100 \<lparr>PathWithNamespace = ''g/a''\<rparr>, 2),
                (replicate 100 \<lparr>PathWithNamespace = ''g/b''\<rparr>, 3),
                (replicate 7 \<lparr>PathWithNamespace = ''g/c''\<rparr>, 0)])
   \<and> getGroupProjects
        \<lparr>ListGroupProjects = (\<lambda>g opt.
            if Page opt = 1 then Listed (replicate 100 \<lparr>PathWithNamespace = ''g/a''\<rparr>) 2
            else if Page opt = 2 then Listed (replicate 100 \<lparr>PathWithNamespace = ''g/b''\<rparr>) 3
            else Listed (replicate 7 \<lparr>PathWithNamespace = ''g/c''\<rparr>) 0),
         ListDescendantGroups = (\<lambda>g opt. Listed [] 0)\<rparr> (GroupPath ''g'')
     = Some (replicate 100 ''g/a'' @ replicate 100 ''g/b'' @ replicate 7 ''g/c'',
             [ListGroupProjectsCall (GroupPath ''g'') \<lparr>PerPage = 100, Page = 1\<rparr>,
              ListGroupProjectsCall (GroupPath ''g'') \<lparr>PerPage = 100, Page = 2\<rparr>,
              ListGroupProjectsCall (GroupPath ''g'') \<lparr>PerPage = 100, Page = 3\<rparr>])
   \<and> length (replicate 100 ''g/a'' @ replicate 100 ''g/b'' @ replicate 7 ''g/c'') = 207"
proof -
  let ?client = "\<lparr>ListGroupProjects = (\<lambda>g opt.
                if Page opt = 1 then Listed (replicate 100 \<lparr>PathWithNamespace = ''g/a''\<rparr>) 2
                else if Page opt = 2 then Listed (replicate 100 \<lparr>PathWithNamespace = ''g/b''\<rparr>) 3
                else Listed (replicate 7 \<lparr>PathWithNamespace = ''g/c''\<rparr>) 0),
             ListDescendantGroups = (\<lambda>g opt. Listed [] 0)\<rparr>"
  let ?pages = "[(replicate 100 \<lparr>PathWithNamespace = ''g/a''\<rparr>, 2),
                (replicate 100 \<lparr>PathWithNamespace = ''g/b''\<rparr>, 3),
                (replicate 7 \<lparr>PathWithNamespace = ''g/c''\<rparr>, 0::int)]"
  have s: "serves (ListGroupProjects ?client (GroupPath ''g'')) 1 (map page ?pages)"
    by simp
  from getGroupProjects_concatenates_pages [OF s] s show ?thesis
    by simp
qed

section \<open>The orders in which the goroutines append\<close>

lemma insert_anywhere_mset: "p \<in> set (insert_anywhere x ys) \<Longrightarrow> mset p = add_mset x (mset ys)"
  by (induction ys arbitrary: p) auto

lemma orders_mset: "p \<in> set (orders ws) \<Longrightarrow> mset p = mset ws"
  by (induction ws arbitrary: p) (auto dest: insert_anywhere_mset)

lemma insert_anywhere_mem: "a @ x # b \<in> set (insert_anywhere x (a @ b))"
  by (induction a) (auto, (cases b; simp))

lemma orders_complete: "mset p = mset ws \<Longrightarrow> p \<in> set (orders ws)"
proof (induction ws arbitrary: p)
  case Nil
  then show ?case by simp
next
  case (Cons w ws)
  then have "w \<in> set p"
    by (metis list.set_intros(1) mset_eq_setD)
  then obtain a b where p: "p = a @ w # b"
    by (auto simp: in_set_conv_decomp)
  with Cons.prems have "mset (a @ b) = mset ws" by simp
  then have "a @ b \<in> set (orders ws)" by (rule Cons.IH)
  with p show ?case
    using insert_anywhere_mem [of a w b] by auto
qed

lemma orders_self: "ws \<in> set (orders ws)"
  by (rule orders_complete) simp

lemma concat_order_mset: "p \<in> set (orders ws) \<Longrightarrow> mset (concat p) = mset (concat ws)"
proof -
  assume "p \<in> set (orders ws)"
  then have "mset p = mset ws" by (rule orders_mset)
  then have "mset (map mset p) = mset (map mset ws)" by simp
  then have "sum_mset (mset (map mset p)) = sum_mset (mset (map mset ws))" by (rule arg_cong)
  then show ?thesis by (simp only: sum_mset_sum_list mset_concat)
qed

lemma concat_order_length: "p \<in> set (orders ws) \<Longrightarrow> length (concat p) = sum_list (map length ws)"
proof -
  assume "p \<in> set (orders ws)"
  then have "mset (concat p) = mset (concat ws)" by (rule concat_order_mset)
  then have "size (mset (concat p)) = size (mset (concat ws))" by simp
  then show ?thesis by (simp add: length_concat)
qed

section \<open>The crawler\<close>

lemma those_map_Some: "(\<And>x. x \<in> set xs \<Longrightarrow> f x = Some (h x)) \<Longrightarrow> those (map f xs) = Some (map h xs)"
  by (induction xs) auto

lemma allGroups_loop_serves:
  "(\<And>g. g \<in> set groups \<Longrightarrow> serves (ListDescendantGroups client g) 1 (sub g)) \<Longrightarrow>
   allGroups_loop client groups acc log =
     Some (acc @ roots_with_descendants sub groups,
           log @ concat (map (\<lambda>g. effects_of (ListDescendantGroupsCall g) 1 (sub g)) groups))"
proof (induction groups arbitrary: acc log)
  case Nil
  then show ?case by (simp add: roots_with_descendants_def)
next
  case (Cons g groups)
  from Cons.prems have "serves (ListDescendantGroups client g) 1 (sub g)" by simp
  from getAllSubgroups_loop_serves [OF this, of "[]" "[]"]
  have "getAllSubgroups client g =
          Some (listed_groups (sub g), effects_of (ListDescendantGroupsCall g) 1 (sub g))"
    by (simp add: getAllSubgroups_def listed_groups_def)
  moreover have "allGroups_loop client groups ((acc @ [g]) @ listed_groups (sub g))
         (log @ effects_of (ListDescendantGroupsCall g) 1 (sub g)) =
       Some (((acc @ [g]) @ listed_groups (sub g)) @ roots_with_descendants sub groups,
             (log @ effects_of (ListDescendantGroupsCall g) 1 (sub g)) @
             concat (map (\<lambda>g. effects_of (ListDescendantGroupsCall g) 1 (sub g)) groups))"
    by (rule Cons.IH) (simp add: Cons.prems)
  ultimately show ?case by (simp add: roots_with_descendants_def)
qed

lemma workers_serves:
  assumes "\<And>g. g \<in> set gs \<Longrightarrow> serves (ListGroupProjects client g) 1 (prj g)"
  shows "those (map (getGroupProjects client) gs) =
           Some (map (\<lambda>g. (listed_paths (prj g), effects_of (ListGroupProjectsCall g) 1 (prj g))) gs)"
proof (rule those_map_Some)
  fix g assume "g \<in> set gs"
  then have "serves (ListGroupProjects client g) 1 (prj g)" by (rule assms)
  from getGroupProjects_loop_serves [OF this, of "[]" "[]"]
  show "getGroupProjects client g =
          Some (listed_paths (prj g), effects_of (ListGroupProjectsCall g) 1 (prj g))"
    by (simp add: getGroupProjects_def listed_paths_def)
qed

lemma getAllGroupProjects_serves:
  assumes "\<And>g. g \<in> set groups \<Longrightarrow> serves (ListDescendantGroups client g) 1 (sub g)"
    and "\<And>g. g \<in> set (roots_with_descendants sub groups) \<Longrightarrow>
           serves (ListGroupProjects client g) 1 (prj g)"
  shows "getAllGroupProjects client groups =
           Some \<lparr>resolve_log =
                   concat (map (\<lambda>g. effects_of (ListDescendantGroupsCall g) 1 (sub g)) groups),
                 worker_logs =
                   map (\<lambda>g. effects_of (ListGroupProjectsCall g) 1 (prj g))
                     (roots_with_descendants sub groups),
                 allProjects =
                   set (map concat (orders (map (\<lambda>g. listed_paths (prj g))
                                              (roots_with_descendants sub groups))))\<rparr>"
proof -
  from allGroups_loop_serves [of groups client sub "[]" "[]"] assms(1)
  have "allGroups_loop client groups [] [] =
          Some (roots_with_descendants sub groups,
                concat (map (\<lambda>g. effects_of (ListDescendantGroupsCall g) 1 (sub g)) groups))"
    by simp
  moreover note workers_serves [of "roots_with_descendants sub groups" client prj, OF assms(2)]
  ultimately show ?thesis
    by (simp add: getAllGroupProjects_def comp_def)
qed

lemma effects_of_first:
  "serves call 1 answers \<Longrightarrow> take 1 (effects_of c 1 answers) = [c \<lparr>PerPage = perPage, Page = 1\<rparr>]"
proof -
  assume s: "serves call 1 answers"
  then obtain a rest where "answers = a # rest" by (cases answers) auto
  then show ?thesis by (cases a) auto
qed

lemma started_for_serves:
  assumes "\<And>x. x \<in> set gs \<Longrightarrow> serves (ListGroupProjects client x) 1 (prj x)"
  shows "started_for g (map (\<lambda>x. effects_of (ListGroupProjectsCall x) 1 (prj x)) gs) = count_list gs g"
  using assms
proof (induction gs)
  case Nil
  then show ?case by (simp add: started_for_def)
next
  case (Cons x gs)
  from Cons.prems have "serves (ListGroupProjects client x) 1 (prj x)" by simp
  then have "take 1 (effects_of (ListGroupProjectsCall x) 1 (prj x)) =
               [ListGroupProjectsCall x \<lparr>PerPage = perPage, Page = 1\<rparr>]"
    by (rule effects_of_first)
  moreover have "started_for g (map (\<lambda>x. effects_of (ListGroupProjectsCall x) 1 (prj x)) gs) =
                   count_list gs g"
    by (rule Cons.IH) (simp add: Cons.prems)
  ultimately show ?case by (auto simp: started_for_def)
qed

text \<open>
  C4 (amended). When the requests for the descendants of every root and for the projects
  of every group are answered by finite sequences, \<open>allGroups\<close> is the list of each root
  followed by the groups listed for it, in order and with repetitions kept. The crawl
  returns; before the goroutines start it has sent the requests for the descendants of
  each root, in the order of the roots, and nothing else; it starts one goroutine for
  each entry of \<open>allGroups\<close>, which sends the requests of that entry's pagination and no
  other, so that the number of goroutines started for a group is the number of times the
  group occurs in \<open>allGroups\<close>; and every list it can return has as many paths as the
  entries' paginations returned together, and holds exactly those paths, each as often as
  it was returned: nothing is removed as a duplicate.
\<close>

theorem getAllGroupProjects_one_worker_per_entry:
  assumes "\<forall>g\<in>set groups. serves (ListDescendantGroups client g) 1 (sub g)"
    and "\<forall>g\<in>set (roots_with_descendants sub groups).
           serves (ListGroupProjects client g) 1 (prj g)"
  shows "allGroups_loop client groups [] [] =
           Some (roots_with_descendants sub groups,
                 concat (map (\<lambda>g. effects_of (ListDescendantGroupsCall g) 1 (sub g)) groups))
       \<and> (\<exists>c. getAllGroupProjects client groups = Some c
            \<and> resolve_log c =
                concat (map (\<lambda>g. effects_of (ListDescendantGroupsCall g) 1 (sub g)) groups)
            \<and> worker_logs c =
                map (\<lambda>g. effects_of (ListGroupProjectsCall g) 1 (prj g))
                  (roots_with_descendants sub groups)
            \<and> length (worker_logs c) = length (roots_with_descendants sub groups)
            \<and> (\<forall>g. started_for g (worker_logs c) =
                      count_list (roots_with_descendants sub groups) g)
            \<and> allProjects c =
                set (map concat (orders (map (\<lambda>g. listed_paths (prj g))
                                           (roots_with_descendants sub groups))))
            \<and> allProjects c \<noteq> {}
            \<and> (\<forall>r\<in>allProjects c.
                  length r = sum_list (map (\<lambda>g. length (listed_paths (prj g)))
                                        (roots_with_descendants sub groups))
                  \<and> mset r = mset (concat (map (\<lambda>g. listed_paths (prj g))
                                               (roots_with_descendants sub groups)))))"
proof -
  let ?gs = "roots_with_descendants sub groups"
  let ?ws = "map (\<lambda>g. listed_paths (prj g)) ?gs"
  let ?c = "\<lparr>resolve_log =
               concat (map (\<lambda>g. effects_of (ListDescendantGroupsCall g) 1 (sub g)) groups),
             worker_logs = map (\<lambda>g. effects_of (ListGroupProjectsCall g) 1 (prj g)) ?gs,
             allProjects = set (map concat (orders ?ws))\<rparr>"
  from assms(1) have d: "\<And>g. g \<in> set groups \<Longrightarrow> serves (ListDescendantGroups client g) 1 (sub g)"
    by blast
  from assms(2) have p: "\<And>g. g \<in> set ?gs \<Longrightarrow> serves (ListGroupProjects client g) 1 (prj g)"
    by blast
  from allGroups_loop_serves [of groups client sub "[]" "[]", OF d]
  have a: "allGroups_loop client groups [] [] =
             Some (?gs, concat (map (\<lambda>g. effects_of (ListDescendantGroupsCall g) 1 (sub g)) groups))"
    by simp
  have r: "getAllGroupProjects client groups = Some ?c"
    by (rule getAllGroupProjects_serves [of groups client sub prj, OF d p])
  have s: "started_for g (worker_logs ?c) = count_list ?gs g" for g
    using started_for_serves [of ?gs client prj g, OF p] by simp
  have ne: "allProjects ?c \<noteq> {}"
    using orders_self [of ?ws] by auto
  have each: "length r = sum_list (map (\<lambda>g. length (listed_paths (prj g))) ?gs)
              \<and> mset r = mset (concat ?ws)" if "r \<in> allProjects ?c" for r
  proof -
    from that obtain p where "p \<in> set (orders ?ws)" and "r = concat p" by auto
    then show ?thesis
      using concat_order_length [of p ?ws] concat_order_mset [of p ?ws]
      by (simp add: comp_def)
  qed
  have big: "getAllGroupProjects client groups = Some ?c
      \<and> resolve_log ?c =
          concat (map (\<lambda>g. effects_of (ListDescendantGroupsCall g) 1 (sub g)) groups)
      \<and> worker_logs ?c = map (\<lambda>g. effects_of (ListGroupProjectsCall g) 1 (prj g)) ?gs
      \<and> length (worker_logs ?c) = length ?gs
      \<and> (\<forall>g. started_for g (worker_logs ?c) = count_list ?gs g)
      \<and> allProjects ?c = set (map concat (orders ?ws))
      \<and> allProjects ?c \<noteq> {}
      \<and> (\<forall>r\<in>allProjects ?c.
            length r = sum_list (map (\<lambda>g. length (listed_paths (prj g))) ?gs)
            \<and> mset r = mset (concat ?ws))"
  proof (intro conjI)
    show "getAllGroupProjects client groups = Some ?c" by (rule r)
    show "\<forall>g. started_for g (worker_logs ?c) = count_list ?gs g" using s by blast
    show "allProjects ?c \<noteq> {}" by (rule ne)
    show "\<forall>r\<in>allProjects ?c.
            length r = sum_list (map (\<lambda>g. length (listed_paths (prj g))) ?gs)
            \<and> mset r = mset (concat ?ws)"
      using each by blast
  qed simp_all
  have "\<exists>c. getAllGroupProjects client groups = Some c
      \<and> resolve_log c =
          concat (map (\<lambda>g. effects_of (ListDescendantGroupsCall g) 1 (sub g)) groups)
      \<and> worker_logs c = map (\<lambda>g. effects_of (ListGroupProjectsCall g) 1 (prj g)) ?gs
      \<and> length (worker_logs c) = length ?gs
      \<and> (\<forall>g. started_for g (worker_logs c) = count_list ?gs g)
      \<and> allProjects c = set (map concat (orders ?ws))
      \<and> allProjects c \<noteq> {}
      \<and> (\<forall>r\<in>allProjects c.
            length r = sum_list (map (\<lambda>g. length (listed_paths (prj g))) ?gs)
            \<and> mset r = mset (concat ?ws))"
    by (rule exI [of _ ?c]) (rule big)
  with a show ?thesis by (rule conjI)
qed

theorem getAllGroupProjects_one_worker_per_entry_witness:
  "allGroups_loop failing_group_client [GroupPath ''g1''] [] [] =
     Some ([GroupPath ''g1'', GroupNum 2, GroupNum 3],
           [ListDescendantGroupsCall (GroupPath ''g1'') \<lparr>PerPage = 100, Page = 1\<rparr>])
   \<and> getAllGroupProjects failing_group_client [GroupPath ''g1''] =
       Some \<lparr>resolve_log =
               [ListDescendantGroupsCall (GroupPath ''g1'') \<lparr>PerPage = 100, Page = 1\<rparr>],
             worker_logs =
               [[ListGroupProjectsCall (GroupPath ''g1'') \<lparr>PerPage = 100, Page = 1\<rparr>],
                [ListGroupProjectsCall (GroupNum 2) \<lparr>PerPage = 100, Page = 1\<rparr>],
                [ListGroupProjectsCall (GroupNum 3) \<lparr>PerPage = 100, Page = 1\<rparr>, PrintErr ''500'']],
             allProjects = {[''g1/g2/a'', ''g1/g2/b'']}\<rparr>
   \<and> started_for (GroupNum 2)
        [[ListGroupProjectsCall (GroupPath ''g1'') \<lparr>PerPage = 100, Page = 1\<rparr>],
         [ListGroupProjectsCall (GroupNum 2) \<lparr>PerPage = 100, Page = 1\<rparr>],
         [ListGroupProjectsCall (GroupNum 3) \<lparr>PerPage = 100, Page = 1\<rparr>, PrintErr ''500'']] = 1"
proof -
  let ?sub = "\<lambda>g. if g = GroupPath ''g1''
                   then [Listed [\<lparr>Group.ID = 2\<rparr>, \<lparr>Group.ID = 3\<rparr>] 0] else [Listed [] 0]"
  let ?prj = "\<lambda>g. if g = GroupNum 2
            then [Listed [\<lparr>PathWithNamespace = ''g1/g2/a''\<rparr>, \<lparr>PathWithNamespace = ''g1/g2/b''\<rparr>] 0]
            else if g = GroupNum 3 then [ListError ''500''] else [Listed [] 0]"
  let ?logs = "[[ListGroupProjectsCall (GroupPath ''g1'') \<lparr>PerPage = 100, Page = 1\<rparr>],
                [ListGroupProjectsCall (GroupNum 2) \<lparr>PerPage = 100, Page = 1\<rparr>],
                [ListGroupProjectsCall (GroupNum 3) \<lparr>PerPage = 100, Page = 1\<rparr>, PrintErr ''500'']]"
  have d: "\<forall>g\<in>set [GroupPath ''g1'']. serves (ListDescendantGroups failing_group_client g) 1 (?sub g)"
    by (simp add: failing_group_client_def)
  have p: "\<forall>g\<in>set (roots_with_descendants ?sub [GroupPath ''g1'']).
             serves (ListGroupProjects failing_group_client g) 1 (?prj g)"
    by (simp add: failing_group_client_def roots_with_descendants_def listed_groups_def)
  have r: "roots_with_descendants ?sub [GroupPath ''g1''] = [GroupPath ''g1'', GroupNum 2, GroupNum 3]"
    by (simp add: roots_with_descendants_def listed_groups_def)
  note t = getAllGroupProjects_one_worker_per_entry [OF d p, unfolded r]
  from t [THEN conjunct1]
  have a: "allGroups_loop failing_group_client [GroupPath ''g1''] [] [] =
        Some ([GroupPath ''g1'', GroupNum 2, GroupNum 3],
              [ListDescendantGroupsCall (GroupPath ''g1'') \<lparr>PerPage = 100, Page = 1\<rparr>])"
    by (simp add: perPage_def del: allGroups_loop.simps)
  from t [THEN conjunct2] obtain c where
    c: "getAllGroupProjects failing_group_client [GroupPath ''g1''] = Some c"
    and c1: "resolve_log c =
               concat (map (\<lambda>g. effects_of (ListDescendantGroupsCall g) 1 (?sub g)) [GroupPath ''g1''])"
    and c2: "worker_logs c =
               map (\<lambda>g. effects_of (ListGroupProjectsCall g) 1 (?prj g))
                 [GroupPath ''g1'', GroupNum 2, GroupNum 3]"
    and c4: "\<forall>g. started_for g (worker_logs c) =
                  count_list [GroupPath ''g1'', GroupNum 2, GroupNum 3] g"
    and c3: "allProjects c =
               set (map concat (orders (map (\<lambda>g. listed_paths (?prj g))
                                          [GroupPath ''g1'', GroupNum 2, GroupNum 3])))"
    by (elim exE conjE)
  from c1 have c1': "resolve_log c =
      [ListDescendantGroupsCall (GroupPath ''g1'') \<lparr>PerPage = 100, Page = 1\<rparr>]"
    by (simp add: perPage_def)
  from c2 have c2': "worker_logs c = ?logs"
    by (simp add: perPage_def)
  from c3 have c3': "allProjects c = {[''g1/g2/a'', ''g1/g2/b'']}"
    by (simp add: listed_paths_def)
  from c1' c2' c3' have "c = \<lparr>resolve_log =
               [ListDescendantGroupsCall (GroupPath ''g1'') \<lparr>PerPage = 100, Page = 1\<rparr>],
             worker_logs = ?logs,
             allProjects = {[''g1/g2/a'', ''g1/g2/b'']}\<rparr>"
    by (cases c) simp
  with c have full: "getAllGroupProjects failing_group_client [GroupPath ''g1''] =
       Some \<lparr>resolve_log =
               [ListDescendantGroupsCall (GroupPath ''g1'') \<lparr>PerPage = 100, Page = 1\<rparr>],
             worker_logs = ?logs,
             allProjects = {[''g1/g2/a'', ''g1/g2/b'']}\<rparr>"
    by simp
  from c4 have "started_for (GroupNum 2) (worker_logs c) =
                  count_list [GroupPath ''g1'', GroupNum 2, GroupNum 3] (GroupNum 2)"
    by (rule spec)
  then have s: "started_for (GroupNum 2) ?logs = 1"
    unfolding c2' by simp
  from a full s show ?thesis by (intro conjI)
qed

text \<open>
  C4 as stated fails when a root is among the descendants of another root: with roots
  \<open>g1\<close> and \<open>2\<close>, where \<open>2\<close> is a subgroup of \<open>g1\<close> with two projects and \<open>g1\<close> has
  none of its own, \<open>allGroups\<close> holds \<open>2\<close> twice, so it is not a set, two goroutines
  are started for the group and each sends its request, and four paths are returned
  where the groups have two.
\<close>

theorem getAllGroupProjects_set_counterexample:
  "allGroups_loop overlapping_roots_client [GroupPath ''g1'', GroupNum 2] [] [] =
     Some ([GroupPath ''g1'', GroupNum 2, GroupNum 2],
           [ListDescendantGroupsCall (GroupPath ''g1'') \<lparr>PerPage = 100, Page = 1\<rparr>,
            ListDescendantGroupsCall (GroupNum 2) \<lparr>PerPage = 100, Page = 1\<rparr>])
   \<and> \<not> distinct [GroupPath ''g1'', GroupNum 2, GroupNum 2]
   \<and> getGroupProjects overlapping_roots_client (GroupPath ''g1'') =
       Some ([], [ListGroupProjectsCall (GroupPath ''g1'') \<lparr>PerPage = 100, Page = 1\<rparr>])
   \<and> getGroupProjects overlapping_roots_client (GroupNum 2) =
       Some ([''g1/g2/a'', ''g1/g2/b''],
             [ListGroupProjectsCall (GroupNum 2) \<lparr>PerPage = 100, Page = 1\<rparr>])
   \<and> getAllGroupProjects overlapping_roots_client [GroupPath ''g1'', GroupNum 2] =
       Some \<lparr>resolve_log =
               [ListDescendantGroupsCall (GroupPath ''g1'') \<lparr>PerPage = 100, Page = 1\<rparr>,
                ListDescendantGroupsCall (GroupNum 2) \<lparr>PerPage = 100, Page = 1\<rparr>],
             worker_logs =
               [[ListGroupProjectsCall (GroupPath ''g1'') \<lparr>PerPage = 100, Page = 1\<rparr>],
                [ListGroupProjectsCall (GroupNum 2) \<lparr>PerPage = 100, Page = 1\<rparr>],
                [ListGroupProjectsCall (GroupNum 2) \<lparr>PerPage = 100, Page = 1\<rparr>]],
             allProjects = {[''g1/g2/a'', ''g1/g2/b'', ''g1/g2/a'', ''g1/g2/b'']}\<rparr>
   \<and> started_for (GroupNum 2)
        [[ListGroupProjectsCall (GroupPath ''g1'') \<lparr>PerPage = 100, Page = 1\<rparr>],
         [ListGroupProjectsCall (GroupNum 2) \<lparr>PerPage = 100, Page = 1\<rparr>],
         [ListGroupProjectsCall (GroupNum 2) \<lparr>PerPage = 100, Page = 1\<rparr>]] = 2"
proof -
  let ?c = overlapping_roots_client
  let ?sub = "\<lambda>g. if g = GroupPath ''g1'' then [Listed [\<lparr>Group.ID = 2\<rparr>] 0] else [Listed [] 0]"
  let ?prj = "\<lambda>g. if g = GroupNum 2
            then [Listed [\<lparr>PathWithNamespace = ''g1/g2/a''\<rparr>, \<lparr>PathWithNamespace = ''g1/g2/b''\<rparr>] 0]
            else [Listed [] 0]"
  have d: "serves (ListDescendantGroups ?c g) 1 (?sub g)" for g
    by (simp add: overlapping_roots_client_def)
  have p: "serves (ListGroupProjects ?c g) 1 (?prj g)" for g
    by (simp add: overlapping_roots_client_def)
  have r: "roots_with_descendants ?sub [GroupPath ''g1'', GroupNum 2] =
             [GroupPath ''g1'', GroupNum 2, GroupNum 2]"
    by (simp add: roots_with_descendants_def listed_groups_def)
  from allGroups_loop_serves [of "[GroupPath ''g1'', GroupNum 2]" ?c ?sub "[]" "[]", OF d]
  have a: "allGroups_loop ?c [GroupPath ''g1'', GroupNum 2] [] [] =
             Some ([GroupPath ''g1'', GroupNum 2, GroupNum 2],
                   [ListDescendantGroupsCall (GroupPath ''g1'') \<lparr>PerPage = 100, Page = 1\<rparr>,
                    ListDescendantGroupsCall (GroupNum 2) \<lparr>PerPage = 100, Page = 1\<rparr>])"
    unfolding r by (simp add: perPage_def)
  from getGroupProjects_loop_serves [OF p, of "GroupPath ''g1''" "[]" "[]"]
  have g1: "getGroupProjects ?c (GroupPath ''g1'') =
       Some ([], [ListGroupProjectsCall (GroupPath ''g1'') \<lparr>PerPage = 100, Page = 1\<rparr>])"
    by (simp add: getGroupProjects_def perPage_def)
  from getGroupProjects_loop_serves [OF p, of "GroupNum 2" "[]" "[]"]
  have g2: "getGroupProjects ?c (GroupNum 2) =
       Some ([''g1/g2/a'', ''g1/g2/b''],
             [ListGroupProjectsCall (GroupNum 2) \<lparr>PerPage = 100, Page = 1\<rparr>])"
    by (simp add: getGroupProjects_def perPage_def)
  from getAllGroupProjects_serves [of "[GroupPath ''g1'', GroupNum 2]" ?c ?sub ?prj, OF d p]
  have c: "getAllGroupProjects ?c [GroupPath ''g1'', GroupNum 2] =
       Some \<lparr>resolve_log =
               [ListDescendantGroupsCall (GroupPath ''g1'') \<lparr>PerPage = 100, Page = 1\<rparr>,
                ListDescendantGroupsCall (GroupNum 2) \<lparr>PerPage = 100, Page = 1\<rparr>],
             worker_logs =
               [[ListGroupProjectsCall (GroupPath ''g1'') \<lparr>PerPage = 100, Page = 1\<rparr>],
                [ListGroupProjectsCall (GroupNum 2) \<lparr>PerPage = 100, Page = 1\<rparr>],
                [ListGroupProjectsCall (GroupNum 2) \<lparr>PerPage = 100, Page = 1\<rparr>]],
             allProjects = {[''g1/g2/a'', ''g1/g2/b'', ''g1/g2/a'', ''g1/g2/b'']}\<rparr>"
    unfolding r by (simp add: listed_paths_def perPage_def)
  have s: "started_for (GroupNum 2)
        [[ListGroupProjectsCall (GroupPath ''g1'') \<lparr>PerPage = 100, Page = 1\<rparr>],
         [ListGroupProjectsCall (GroupNum 2) \<lparr>PerPage = 100, Page = 1\<rparr>],
         [ListGroupProjectsCall (GroupNum 2) \<lparr>PerPage = 100, Page = 1\<rparr>]] = 2"
    by (simp add: started_for_def perPage_def)
  have nd: "\<not> distinct [GroupPath ''g1'', GroupNum 2, GroupNum 2]" by simp
  from a nd g1 g2 c s show ?thesis by (intro conjI)
qed

text \<open>
  C9. \<open>Projects\<close> returns the same for every value of \<open>syncAll\<close>: what the crawl over the
  two roots \<open>linux\<close> and \<open>kubernetes\<close> returns.
\<close>

theorem Projects_ignores_syncAll:
  "Projects client syncAll = Projects client syncAll'
   \<and> Projects client syncAll =
       getAllGroupProjects client [GroupPath ''linux'', GroupPath ''kubernetes'']"
  by (simp add: Projects_def)

text \<open>
  C5. When a page of a group's projects, or of a group's descendants, fails after some
  pages were listed, the loop reports the error once and ends: it returns what the pages
  before gave, and its last request is the failed one, sent once. The crawl goes on: if
  every pagination ends, by a last page or by an error, \<open>getAllGroupProjects\<close> returns,
  and what it returns holds exactly the paths the paginations returned. In the example
  the root \<open>g1\<close> has the subgroups \<open>2\<close>, with two projects, and \<open>3\<close>, whose listing fails:
  the two projects of \<open>2\<close> are returned.
\<close>

theorem fetch_error_ends_one_pagination:
  "(serves (ListGroupProjects client g) 1 (map page pages @ [ListError err]) \<longrightarrow>
      getGroupProjects client g =
        Some (map PathWithNamespace (concat (map fst pages)),
              map (\<lambda>p. ListGroupProjectsCall g \<lparr>PerPage = 100, Page = p\<rparr>) (1 # map snd pages)
                @ [PrintErr err]))
   \<and> (serves (ListDescendantGroups client g') 1 (map page pages' @ [ListError err']) \<longrightarrow>
      getAllSubgroups client g' =
        Some (map (\<lambda>sg. GroupNum (Group.ID sg)) (concat (map fst pages')),
              map (\<lambda>p. ListDescendantGroupsCall g' \<lparr>PerPage = 100, Page = p\<rparr>) (1 # map snd pages')
                @ [PrintErr err']))
   \<and> ((\<forall>g\<in>set groups. serves (ListDescendantGroups client g) 1 (sub g))
        \<and> (\<forall>g\<in>set (roots_with_descendants sub groups).
              serves (ListGroupProjects client g) 1 (prj g)) \<longrightarrow>
      (\<exists>c. getAllGroupProjects client groups = Some c \<and> allProjects c \<noteq> {} \<and>
         (\<forall>r\<in>allProjects c. mset r = mset (concat (map (\<lambda>g. listed_paths (prj g))
                                                    (roots_with_descendants sub groups))))))"
proof (intro conjI impI)
  assume s: "serves (ListGroupProjects client g) 1 (map page pages @ [ListError err])"
  from getGroupProjects_loop_serves [OF s, of "[]" "[]"]
  show "getGroupProjects client g =
        Some (map PathWithNamespace (concat (map fst pages)),
              map (\<lambda>p. ListGroupProjectsCall g \<lparr>PerPage = 100, Page = p\<rparr>) (1 # map snd pages)
                @ [PrintErr err])"
    unfolding getGroupProjects_def items_of_pages_error effects_of_pages_error
    by (simp add: perPage_def)
next
  assume s: "serves (ListDescendantGroups client g') 1 (map page pages' @ [ListError err'])"
  from getAllSubgroups_loop_serves [OF s, of "[]" "[]"]
  show "getAllSubgroups client g' =
        Some (map (\<lambda>sg. GroupNum (Group.ID sg)) (concat (map fst pages')),
              map (\<lambda>p. ListDescendantGroupsCall g' \<lparr>PerPage = 100, Page = p\<rparr>) (1 # map snd pages')
                @ [PrintErr err'])"
    unfolding getAllSubgroups_def items_of_pages_error effects_of_pages_error
    by (simp add: perPage_def)
next
  let ?gs = "roots_with_descendants sub groups"
  let ?ws = "map (\<lambda>g. listed_paths (prj g)) ?gs"
  let ?c = "\<lparr>resolve_log =
               concat (map (\<lambda>g. effects_of (ListDescendantGroupsCall g) 1 (sub g)) groups),
             worker_logs = map (\<lambda>g. effects_of (ListGroupProjectsCall g) 1 (prj g)) ?gs,
             allProjects = set (map concat (orders ?ws))\<rparr>"
  assume "(\<forall>g\<in>set groups. serves (ListDescendantGroups client g) 1 (sub g))
        \<and> (\<forall>g\<in>set ?gs. serves (ListGroupProjects client g) 1 (prj g))"
  then have d: "\<And>g. g \<in> set groups \<Longrightarrow> serves (ListDescendantGroups client g) 1 (sub g)"
    and p: "\<And>g. g \<in> set ?gs \<Longrightarrow> serves (ListGroupProjects client g) 1 (prj g)"
    by blast+
  have r: "getAllGroupProjects client groups = Some ?c"
    by (rule getAllGroupProjects_serves [of groups client sub prj, OF d p])
  have ne: "allProjects ?c \<noteq> {}"
    using orders_self [of ?ws] by auto
  have each: "\<forall>r\<in>allProjects ?c. mset r = mset (concat ?ws)"
    using concat_order_mset [of _ ?ws] by auto
  from r ne each
  have "getAllGroupProjects client groups = Some ?c \<and> allProjects ?c \<noteq> {} \<and>
         (\<forall>r\<in>allProjects ?c. mset r = mset (concat ?ws))"
    by (intro conjI)
  then show "\<exists>c. getAllGroupProjects client groups = Some c \<and> allProjects c \<noteq> {} \<and>
         (\<forall>r\<in>allProjects c. mset r = mset (concat ?ws))"
    by (rule exI [of _ ?c])
qed

theorem fetch_error_ends_one_pagination_witness:
  "getGroupProjects failing_group_client (GroupNum 3) =
     Some ([], [ListGroupProjectsCall (GroupNum 3) \<lparr>PerPage = 100, Page = 1\<rparr>, PrintErr ''500''])
   \<and> getAllSubgroups failing_group_client (GroupPath ''g9'') =
     Some ([GroupNum 5],
           [ListDescendantGroupsCall (GroupPath ''g9'') \<lparr>PerPage = 100, Page = 1\<rparr>,
            ListDescendantGroupsCall (GroupPath ''g9'') \<lparr>PerPage = 100, Page = 2\<rparr>,
            PrintErr ''502''])
   \<and> map_option allProjects (getAllGroupProjects failing_group_client [GroupPath ''g1'']) =
       Some {[''g1/g2/a'', ''g1/g2/b'']}"
proof -
  let ?c = failing_group_client
  let ?sub = "\<lambda>g. if g = GroupPath ''g1''
                   then [Listed [\<lparr>Group.ID = 2\<rparr>, \<lparr>Group.ID = 3\<rparr>] 0] else [Listed [] 0]"
  let ?prj = "\<lambda>g. if g = GroupNum 2
            then [Listed [\<lparr>PathWithNamespace = ''g1/g2/a''\<rparr>, \<lparr>PathWithNamespace = ''g1/g2/b''\<rparr>] 0]
            else if g = GroupNum 3 then [ListError ''500''] else [Listed [] 0]"
  note t = fetch_error_ends_one_pagination
    [of ?c "GroupNum 3" "[]" "''500''" "GroupPath ''g9''" "[([\<lparr>Group.ID = 5\<rparr>], 2)]" "''502''"
        "[GroupPath ''g1'']" ?sub ?prj]
  have s1: "serves (ListGroupProjects ?c (GroupNum 3)) 1 (map page [] @ [ListError ''500''])"
    by (simp add: failing_group_client_def)
  have s2: "serves (ListDescendantGroups ?c (GroupPath ''g9'')) 1
              (map page [([\<lparr>Group.ID = 5\<rparr>], 2)] @ [ListError ''502''])"
    by (simp add: failing_group_client_def)
  have r: "roots_with_descendants ?sub [GroupPath ''g1''] = [GroupPath ''g1'', GroupNum 2, GroupNum 3]"
    by (simp add: roots_with_descendants_def listed_groups_def)
  have s3: "(\<forall>g\<in>set [GroupPath ''g1'']. serves (ListDescendantGroups ?c g) 1 (?sub g))
        \<and> (\<forall>g\<in>set (roots_with_descendants ?sub [GroupPath ''g1'']).
              serves (ListGroupProjects ?c g) 1 (?prj g))"
    unfolding r by (simp add: failing_group_client_def)
  from t [THEN conjunct1, THEN mp, OF s1] have a: "getGroupProjects ?c (GroupNum 3) =
     Some ([], [ListGroupProjectsCall (GroupNum 3) \<lparr>PerPage = 100, Page = 1\<rparr>, PrintErr ''500''])"
    by simp
  from t [THEN conjunct2, THEN conjunct1, THEN mp, OF s2] have b: "getAllSubgroups ?c (GroupPath ''g9'') =
     Some ([GroupNum 5],
           [ListDescendantGroupsCall (GroupPath ''g9'') \<lparr>PerPage = 100, Page = 1\<rparr>,
            ListDescendantGroupsCall (GroupPath ''g9'') \<lparr>PerPage = 100, Page = 2\<rparr>,
            PrintErr ''502''])"
    by simp
  from s3 have d: "\<And>g. g \<in> set [GroupPath ''g1''] \<Longrightarrow> serves (ListDescendantGroups ?c g) 1 (?sub g)"
    and p: "\<And>g. g \<in> set (roots_with_descendants ?sub [GroupPath ''g1'']) \<Longrightarrow>
              serves (ListGroupProjects ?c g) 1 (?prj g)"
    by blast+
  from getAllGroupProjects_serves [of "[GroupPath ''g1'']" ?c ?sub ?prj, OF d p]
  have "map_option allProjects (getAllGroupProjects ?c [GroupPath ''g1'']) =
          Some {[''g1/g2/a'', ''g1/g2/b'']}"
    unfolding r by (simp add: listed_paths_def)
  with a b show ?thesis by (intro conjI)
qed

section \<open>What the pattern removes\<close>

lemma match_tail_occurs: "match_tail s = Some r \<Longrightarrow> occurs_in clr0K s"
  by (induction s arbitrary: r) (auto split: option.splits if_splits)

lemma occurs_in_drop: "occurs_in pat (drop n s) \<Longrightarrow> pat \<noteq> [] \<Longrightarrow> occurs_in pat s"
proof (induction s arbitrary: n)
  case Nil
  then show ?case by simp
next
  case (Cons c cs)
  then show ?case by (cases n) auto
qed

lemma re_match_occurs: "re_match s = Some r \<Longrightarrow> occurs_in clr0K s"
  by (auto simp: re_match_def clr0K_def split: if_splits dest!: match_tail_occurs
      intro: occurs_in_drop)

lemma re_no_clr: "\<not> occurs_in clr0K s \<Longrightarrow> re_ReplaceAllString s = s"
proof (induction s)
  case Nil
  then show ?case by simp
next
  case (Cons c cs)
  from Cons.prems have "re_match (c # cs) = None"
    using re_match_occurs [of "c # cs"] by (cases "re_match (c # cs)") auto
  with Cons show ?case by simp
qed

lemma match_tail_last:
  "newline \<notin> set m \<Longrightarrow> \<not> occurs_in clr0K b \<Longrightarrow> match_tail (m @ clr0K @ b) = Some b"
proof (induction m)
  case Nil
  have "\<not> occurs_in clr0K (''0K'' @ b)"
    using Nil.prems(2) by (simp add: clr0K_def strings_HasPrefix_def)
  then have "match_tail (''0K'' @ b) = None"
    using match_tail_occurs [of "''0K'' @ b"] by (cases "match_tail (''0K'' @ b)") auto
  then show ?case
    by (simp add: clr0K_def strings_HasPrefix_def newline_def)
next
  case (Cons c m)
  then have "c \<noteq> newline" and "match_tail (m @ clr0K @ b) = Some b" by auto
  then show ?case by simp
qed

lemma re_match_not_before:
  "\<not> occurs_in esc0m (c # a) \<Longrightarrow> re_match ((c # a) @ esc0m @ t) = None"
proof -
  assume n: "\<not> occurs_in esc0m (c # a)"
  have "\<not> strings_HasPrefix ((c # a) @ esc0m @ t) esc0m"
  proof (cases "length (c # a) < 4")
    case True
    then consider "a = []" | x where "a = [x]" | x y where "a = [x, y]"
      by (cases a; cases "tl a"; cases "tl (tl a)") auto
    then show ?thesis
      by cases (auto simp: strings_HasPrefix_def esc0m_def)
  next
    case False
    with n show ?thesis
      by (auto simp: strings_HasPrefix_def esc0m_def)
  qed
  then show ?thesis by (simp add: re_match_def)
qed

lemma re_before_first:
  "\<not> occurs_in esc0m a \<Longrightarrow>
   re_ReplaceAllString (a @ esc0m @ t) = a @ re_ReplaceAllString (esc0m @ t)"
proof (induction a)
  case Nil
  then show ?case by simp
next
  case (Cons c a)
  from Cons.prems have "re_match ((c # a) @ esc0m @ t) = None"
    by (rule re_match_not_before)
  moreover from Cons.prems have "\<not> occurs_in esc0m a" by simp
  ultimately show ?case using Cons.IH by simp
qed

lemma re_span:
  assumes "\<not> occurs_in esc0m a" and "newline \<notin> set m" and "\<not> occurs_in clr0K b"
  shows "re_ReplaceAllString (a @ esc0m @ m @ clr0K @ b) = a @ b"
proof -
  from assms(2,3) have "match_tail (m @ clr0K @ b) = Some b" by (rule match_tail_last)
  then have "re_match (esc0m @ m @ clr0K @ b) = Some b"
    by (simp add: re_match_def strings_HasPrefix_def esc0m_def)
  then have "re_ReplaceAllString (esc0m @ m @ clr0K @ b) = re_ReplaceAllString b"
    by (simp add: esc0m_def)
  also from assms(3) have "\<dots> = b" by (rule re_no_clr)
  finally show ?thesis
    using re_before_first [OF assms(1), of "m @ clr0K @ b"] by simp
qed

section \<open>More facts about \<open>strings.Split\<close>\<close>

lemma Split_append:
  "strings_Split (a @ b) sep =
     butlast (strings_Split a sep) @
     (last (strings_Split a sep) @ hd (strings_Split b sep)) # tl (strings_Split b sep)"
proof (induction a)
  case Nil
  then show ?case by (cases "strings_Split b sep") auto
next
  case (Cons c a)
  then show ?case
    by (cases "strings_Split a sep") (auto simp: butlast_append)
qed

lemma Split_length: "\<exists>n. length (strings_Split a sep) = Suc n"
  by (cases "strings_Split a sep") auto

lemma Split_append_length:
  "length (strings_Split (a @ b) sep) = length (strings_Split a sep) + length (strings_Split b sep) - 1"
proof -
  obtain n where n: "length (strings_Split a sep) = Suc n" using Split_length by blast
  obtain m where m: "length (strings_Split b sep) = Suc m" using Split_length by blast
  show ?thesis by (simp add: Split_append n m)
qed

lemma Split_append_drop:
  "drop (length (strings_Split a sep)) (strings_Split (a @ b) sep) = tl (strings_Split b sep)"
proof -
  obtain n where n: "length (strings_Split a sep) = Suc n" using Split_length by blast
  show ?thesis by (simp add: Split_append n)
qed

lemma Split_line: "sep \<notin> set l \<Longrightarrow> strings_Split (l @ sep # s) sep = l # strings_Split s sep"
  by (induction l) auto

lemma Split_unlines:
  "\<forall>l\<in>set ls. newline \<notin> set l \<Longrightarrow> strings_Split (unlines ls) newline = ls @ [[]]"
  by (induction ls) (auto simp: unlines_def Split_line)

lemma unlines_append: "unlines (xs @ ys) = unlines xs @ unlines ys"
  by (simp add: unlines_def)

section \<open>One tick of \<open>DoTrace\<close>\<close>

lemma int64_id: "- (2 ^ 63) \<le> x \<Longrightarrow> x < 2 ^ 63 \<Longrightarrow> int64 x = x"
  by (simp add: int64_def)

lemma go_slice_ok:
  "0 \<le> lo \<Longrightarrow> lo \<le> hi \<Longrightarrow> hi \<le> int (length s) \<Longrightarrow>
   go_slice s lo hi = Inr (drop (nat lo) (take (nat hi) s))"
  by (simp add: go_slice_def)

lemma printed_append [simp]: "printed (xs @ ys) = printed xs @ printed ys"
  by (induction xs rule: printed.induct) auto

lemma printed_Println [simp]: "printed (map (\<lambda>l. Println (f l)) ls) = map f ls"
  by (induction ls) auto

lemma trace_reads_append [simp]: "trace_reads (xs @ ys) = trace_reads xs + trace_reads ys"
  by (induction xs rule: trace_reads.induct) auto

lemma job_reads_append [simp]: "job_reads (xs @ ys) = job_reads xs + job_reads ys"
  by (induction xs rule: job_reads.induct) auto

lemma trace_reads_Println [simp]: "trace_reads (map (\<lambda>l. Println (f l)) ls) = 0"
  by (induction ls) auto

lemma job_reads_Println [simp]: "job_reads (map (\<lambda>l. Println (f l)) ls) = 0"
  by (induction ls) auto

lemma tick_lines_state:
  "tick_lines tailLine st t = Inr (new, st') \<Longrightarrow>
   st' = st\<lparr>offset := int (length (strings_Split t newline)), firstTail := False\<rparr>"
  by (auto simp: tick_lines_def Let_def split: sum.splits if_splits)

lemma tick_lines_later:
  "\<not> firstTail st \<Longrightarrow> 0 \<le> offset st \<Longrightarrow> offset st \<le> int (length (strings_Split t newline)) \<Longrightarrow>
   tick_lines tailLine st t =
     Inr (drop (nat (offset st)) (strings_Split t newline),
          st\<lparr>offset := int (length (strings_Split t newline)), firstTail := False\<rparr>)"
  by (simp add: tick_lines_def Let_def go_slice_def)

lemma tick_lines_first_unlines:
  assumes "\<forall>l\<in>set ls. newline \<notin> set l" and "0 < tailLine" and "tailLine < 2 ^ 63"
    and "int (length ls) < 2 ^ 62"
  shows "tick_lines tailLine \<lparr>offset = 0, firstTail = True, job = jo\<rparr> (unlines ls) =
           Inr (drop (nat (int (length ls) + 1 - tailLine)) ls,
                \<lparr>offset = int (length ls) + 1, firstTail = False, job = jo\<rparr>)"
proof -
  define b where "b = int (length ls) + 1 - tailLine"
  have split: "strings_Split (unlines ls) newline = ls @ [[]]"
    using assms(1) by (rule Split_unlines)
  have "int64 b = b"
    using assms(2-4) unfolding b_def by (intro int64_id) auto
  moreover have "int (length (ls @ [[]])) - tailLine = b"
    by (simp add: b_def)
  ultimately have beg: "max (int64 (int (length (ls @ [[]])) - tailLine)) 0 = max b 0"
    by simp
  have "go_slice (ls @ [[]]) (max b 0) (int (length (ls @ [[]])) - 1) =
          Inr (drop (nat (max b 0)) (take (nat (int (length (ls @ [[]])) - 1)) (ls @ [[]])))"
    using assms(2) by (intro go_slice_ok) (auto simp: b_def)
  also have "\<dots> = Inr (drop (nat b) ls)"
    by (simp add: max_def)
  finally have window: "go_slice (ls @ [[]]) (max (int64 (int (length (ls @ [[]])) - tailLine)) 0)
      (int (length (ls @ [[]])) - 1) = Inr (drop (nat b) ls)"
    unfolding beg .
  have rest: "go_slice (drop (nat b) ls) 0 (int (length (drop (nat b) ls))) = Inr (drop (nat b) ls)"
    by (simp add: go_slice_def)
  show ?thesis
    unfolding tick_lines_def split Let_def
    by (simp only: window TraceState.simps if_True sum.case) (simp add: go_slice_def b_def)
qed

lemma DoTrace_loop_running:
  "job st = Some j \<Longrightarrow> tick_lines tailLine st t = Inr (new, st') \<Longrightarrow> IsRunning (Status j) \<Longrightarrow>
   DoTrace_loop u pre tailLine st log ((Fetched t, Fetched j') # ticks) =
     DoTrace_loop u pre tailLine (st'\<lparr>job := Some j'\<rparr>)
       (log @ GetTraceFile (ID j) # map (\<lambda>line. Println (re_ReplaceAllString (pre @ line))) new
            @ [GetJob (ID j)]) ticks"
  by (simp add: checked_def)

lemma DoTrace_loop_finished:
  "job st = Some j \<Longrightarrow> tick_lines tailLine st t = Inr (new, st') \<Longrightarrow> \<not> IsRunning (Status j) \<Longrightarrow>
   DoTrace_loop u pre tailLine st log ((Fetched t, r) # ticks) =
     (log @ GetTraceFile (ID j) # map (\<lambda>line. Println (re_ReplaceAllString (pre @ line))) new,
      st', Returned)"
  by (simp add: checked_def)

lemma DoTrace_loop_panic:
  "job st = Some j \<Longrightarrow> tick_lines tailLine st t = Inl p \<Longrightarrow>
   DoTrace_loop u pre tailLine st log ((Fetched t, r) # ticks) =
     (log @ [GetTraceFile (ID j)], st, Panicked p)"
  by (simp add: checked_def)

text \<open>
  The loop over a list of ticks goes through the first part of the list and, if it is
  then waiting for the next tick, on through the rest; and what is already in the log
  plays no part in what it does.
\<close>

lemma DoTrace_loop_append:
  "DoTrace_loop u pre tailLine st log (a @ b) =
     (case DoTrace_loop u pre tailLine st log a of
        (log', st', Ticking) \<Rightarrow> DoTrace_loop u pre tailLine st' log' b
      | r \<Rightarrow> r)"
  by (induction a arbitrary: st log)
     (auto simp: checked_def Let_def split: option.splits sum.splits fetched.splits prod.splits if_splits)

lemma DoTrace_loop_log:
  "DoTrace_loop u pre tailLine st (log @ log2) ticks =
     (case DoTrace_loop u pre tailLine st log2 ticks of (evs, r) \<Rightarrow> (log @ evs, r))"
  by (induction ticks arbitrary: st log2)
     (auto simp: checked_def Let_def split: option.splits sum.splits fetched.splits prod.splits if_splits)

section \<open>The polls of a trace that grows\<close>

lemma later_polls:
  "\<forall>j'\<in>set (j # js). IsRunning (Status j') \<Longrightarrow> length js = length ds \<Longrightarrow>
   DoTrace_loop u pre tailLine
     \<lparr>offset = int (length (strings_Split t newline)), firstTail = False, job = Some j\<rparr> log
     (polls (grown t ds) js) = (evs, st, out) \<Longrightarrow>
   printed evs = printed log @ map (\<lambda>line. re_ReplaceAllString (pre @ line)) (later_lines t (grown t ds))
   \<and> st = \<lparr>offset = int (length (strings_Split (last (t # grown t ds)) newline)),
            firstTail = False, job = Some (last (j # js))\<rparr>
   \<and> out = Ticking"
proof (induction ds arbitrary: t log j js)
  case Nil
  then show ?case by (simp add: polls_def)
next
  case (Cons d ds)
  from Cons.prems(2) obtain j' js' where js: "js = j' # js'" and len: "length js' = length ds"
    by (cases js) auto
  let ?st = "\<lparr>offset = int (length (strings_Split t newline)), firstTail = False, job = Some j\<rparr>"
  let ?new = "drop (length (strings_Split t newline)) (strings_Split (t @ d) newline)"
  let ?st' = "\<lparr>offset = int (length (strings_Split (t @ d) newline)), firstTail = False, job = Some j\<rparr>"
  let ?log' = "log @ GetTraceFile (ID j) #
                 map (\<lambda>line. Println (re_ReplaceAllString (pre @ line))) ?new @ [GetJob (ID j)]"
  have le: "length (strings_Split t newline) \<le> length (strings_Split (t @ d) newline)"
    using Split_length [of d newline] by (auto simp: Split_append_length)
  then have tick: "tick_lines tailLine ?st (t @ d) = Inr (?new, ?st')"
    by (simp add: tick_lines_later)
  from Cons.prems(1) have run: "IsRunning (Status j)" by simp
  have "DoTrace_loop u pre tailLine ?st log
          ((Fetched (t @ d), Fetched j') # polls (grown (t @ d) ds) js') =
        DoTrace_loop u pre tailLine (?st'\<lparr>job := Some j'\<rparr>) ?log' (polls (grown (t @ d) ds) js')"
    by (rule DoTrace_loop_running [OF _ tick run]) simp
  with Cons.prems(3) js
  have "DoTrace_loop u pre tailLine
          \<lparr>offset = int (length (strings_Split (t @ d) newline)), firstTail = False, job = Some j'\<rparr>
          ?log' (polls (grown (t @ d) ds) js') = (evs, st, out)"
    by (simp add: polls_def del: DoTrace_loop.simps)
  moreover from Cons.prems(1) js have "\<forall>j''\<in>set (j' # js'). IsRunning (Status j'')" by simp
  ultimately show ?case
    using Cons.IH [of j' js' "t @ d" ?log'] len js by simp
qed

lemma DoTrace_growing:
  assumes running: "\<forall>j'\<in>set (j # js). IsRunning (Status j')"
    and len: "length js = Suc (length ds)"
    and first: "tick_lines tailLine \<lparr>offset = 0, firstTail = True, job = Some j\<rparr> t = Inr (window, st1)"
  shows "printed (log_of (DoTrace u j tailLine (polls (t # grown t ds) js))) =
           map (\<lambda>line. re_ReplaceAllString (RandomColor u (''['' @ Name j @ ''] '') @ line))
             (window @ later_lines t (grown t ds))
       \<and> offset (state_of (DoTrace u j tailLine (polls (t # grown t ds) js))) =
           int (length (strings_Split (last (t # grown t ds)) newline))
       \<and> outcome_of (DoTrace u j tailLine (polls (t # grown t ds) js)) = Ticking"
proof -
  let ?pre = "RandomColor u (''['' @ Name j @ ''] '')"
  let ?st0 = "\<lparr>offset = 0, firstTail = True, job = Some j\<rparr>"
  from len obtain j1 js' where js: "js = j1 # js'" and len': "length js' = length ds"
    by (cases js) auto
  from tick_lines_state [OF first]
  have st1: "st1 = \<lparr>offset = int (length (strings_Split t newline)), firstTail = False, job = Some j\<rparr>"
    by simp
  let ?log1 = "[] @ GetTraceFile (ID j) #
                 map (\<lambda>line. Println (re_ReplaceAllString (?pre @ line))) window @ [GetJob (ID j)]"
  from running have run: "IsRunning (Status j)" by simp
  have "DoTrace_loop u ?pre tailLine ?st0 [] ((Fetched t, Fetched j1) # polls (grown t ds) js') =
        DoTrace_loop u ?pre tailLine (st1\<lparr>job := Some j1\<rparr>) ?log1 (polls (grown t ds) js')"
    by (rule DoTrace_loop_running [OF _ first run]) simp
  then have eq: "DoTrace u j tailLine (polls (t # grown t ds) js) =
        DoTrace_loop u ?pre tailLine
          \<lparr>offset = int (length (strings_Split t newline)), firstTail = False, job = Some j1\<rparr>
          ?log1 (polls (grown t ds) js')"
    by (simp add: DoTrace_def polls_def js st1 del: DoTrace_loop.simps)
  obtain evs st out where r: "DoTrace_loop u ?pre tailLine
          \<lparr>offset = int (length (strings_Split t newline)), firstTail = False, job = Some j1\<rparr>
          ?log1 (polls (grown t ds) js') = (evs, st, out)"
    by (cases "DoTrace_loop u ?pre tailLine
          \<lparr>offset = int (length (strings_Split t newline)), firstTail = False, job = Some j1\<rparr>
          ?log1 (polls (grown t ds) js')") auto
  from running js have "\<forall>j'\<in>set (j1 # js'). IsRunning (Status j')" by simp
  from later_polls [OF this len' r] eq r show ?thesis
    by (simp add: log_of_def state_of_def outcome_of_def)
qed

lemma later_lines_unlines:
  "\<forall>l\<in>set ls. newline \<notin> set l \<Longrightarrow>
   later_lines t [t @ unlines ls] = tl (ls @ [[]])"
  by (simp add: Split_append_drop Split_unlines)

text \<open>
  C1, the code at the claim's example. With \<open>tailLine = 20\<close>, a first poll of the five
  lines \<open>l1\<close> to \<open>l5\<close> prints the five and records the offset 6, one more than the
  lines emitted: the empty piece behind the last newline is counted, though the window
  of the first poll leaves it out and it is not printed. The second poll finds \<open>l6\<close>,
  \<open>l7\<close>, \<open>l8\<close> appended and prints \<open>l7\<close>, \<open>l8\<close> and an empty line: \<open>l6\<close> is never
  printed, and the empty line is no line of the trace.
\<close>

theorem DoTrace_five_lines_then_three:
  "printed (log_of (DoTrace u \<lparr>ID = 7, Name = ''build'', Status = ''running''\<rparr> 20
      (polls [unlines [''l1'', ''l2'', ''l3'', ''l4'', ''l5'']]
             [\<lparr>ID = 7, Name = ''build'', Status = ''running''\<rparr>]))) =
     map (\<lambda>line. re_ReplaceAllString (RandomColor u ''[build] '' @ line))
       [''l1'', ''l2'', ''l3'', ''l4'', ''l5'']
   \<and> offset (state_of (DoTrace u \<lparr>ID = 7, Name = ''build'', Status = ''running''\<rparr> 20
      (polls [unlines [''l1'', ''l2'', ''l3'', ''l4'', ''l5'']]
             [\<lparr>ID = 7, Name = ''build'', Status = ''running''\<rparr>]))) = 6
   \<and> printed (log_of (DoTrace u \<lparr>ID = 7, Name = ''build'', Status = ''running''\<rparr> 20
      (polls [unlines [''l1'', ''l2'', ''l3'', ''l4'', ''l5''],
              unlines [''l1'', ''l2'', ''l3'', ''l4'', ''l5'', ''l6'', ''l7'', ''l8'']]
             [\<lparr>ID = 7, Name = ''build'', Status = ''running''\<rparr>,
              \<lparr>ID = 7, Name = ''build'', Status = ''running''\<rparr>]))) =
     map (\<lambda>line. re_ReplaceAllString (RandomColor u ''[build] '' @ line))
       [''l1'', ''l2'', ''l3'', ''l4'', ''l5'', ''l7'', ''l8'', []]"
proof -
  let ?j = "\<lparr>ID = 7, Name = ''build'', Status = ''running''\<rparr>"
  let ?ls = "[''l1'', ''l2'', ''l3'', ''l4'', ''l5'']"
  let ?t = "unlines ?ls"
  let ?d = "[''l6'', ''l7'', ''l8'']"
  have nl: "\<forall>l\<in>set ?ls. newline \<notin> set l"
    by (simp add: newline_def)
  have sp: "strings_Split ?t newline = ?ls @ [[]]"
    using nl by (rule Split_unlines)
  from tick_lines_first_unlines [OF nl, of 20 "Some ?j"]
  have first: "tick_lines 20 \<lparr>offset = 0, firstTail = True, job = Some ?j\<rparr> ?t =
      Inr (?ls, \<lparr>offset = 6, firstTail = False, job = Some ?j\<rparr>)"
    by simp
  have run1: "\<forall>j'\<in>set [?j, ?j]. IsRunning (Status j')"
    and run2: "\<forall>j'\<in>set [?j, ?j, ?j]. IsRunning (Status j')"
    by (simp_all add: IsRunning_def)
  have later: "later_lines ?t [?t @ unlines ?d] = [''l7'', ''l8'', []]"
    by (subst later_lines_unlines) (simp_all add: newline_def)
  have t8: "unlines [''l1'', ''l2'', ''l3'', ''l4'', ''l5'', ''l6'', ''l7'', ''l8''] = ?t @ unlines ?d"
    by (simp add: unlines_def)
  from DoTrace_growing [of ?j "[?j]" "[]" 20 ?t _ _ u, OF _ _ first] run1
  have one: "printed (log_of (DoTrace u ?j 20 (polls [?t] [?j]))) =
     map (\<lambda>line. re_ReplaceAllString (RandomColor u ''[build] '' @ line)) ?ls"
    and off: "offset (state_of (DoTrace u ?j 20 (polls [?t] [?j]))) = 6"
    by (simp_all add: sp del: re_ReplaceAllString.simps)
  from DoTrace_growing [of ?j "[?j, ?j]" "[unlines ?d]" 20 ?t _ _ u, OF _ _ first] run2
  have two: "printed (log_of (DoTrace u ?j 20 (polls [?t, ?t @ unlines ?d] [?j, ?j]))) =
     map (\<lambda>line. re_ReplaceAllString (RandomColor u ''[build] '' @ line))
       [''l1'', ''l2'', ''l3'', ''l4'', ''l5'', ''l7'', ''l8'', []]"
    by (simp add: later del: later_lines.simps re_ReplaceAllString.simps)
  from one off two show ?thesis unfolding t8 by simp
qed

text \<open>
  C2, the code at the claim's example. With \<open>tailLine = 20\<close> and a trace of 1000 lines,
  the first poll prints the last 19 lines, not the last 20: the window starts at
  \<open>length - tailLine\<close>, where \<open>length\<close> counts the empty piece behind the last newline,
  and ends before that piece. When two lines are then appended, the next poll prints the
  second of them and an empty line, not the first.
\<close>

theorem DoTrace_tail_window_1000:
  "printed (log_of (DoTrace u \<lparr>ID = 7, Name = ''build'', Status = ''running''\<rparr> 20
      (polls [unlines (replicate 1000 ''old''),
              unlines (replicate 1000 ''old'' @ [''new 1'', ''new 2''])]
             [\<lparr>ID = 7, Name = ''build'', Status = ''running''\<rparr>,
              \<lparr>ID = 7, Name = ''build'', Status = ''running''\<rparr>]))) =
     map (\<lambda>line. re_ReplaceAllString (RandomColor u ''[build] '' @ line))
       (replicate 19 ''old'' @ [''new 2'', []])"
proof -
  let ?j = "\<lparr>ID = 7, Name = ''build'', Status = ''running''\<rparr>"
  let ?t = "unlines (replicate 1000 ''old'')"
  let ?d = "[''new 1'', ''new 2'']"
  have nl: "\<forall>l\<in>set (replicate 1000 ''old''). newline \<notin> set l"
    by (simp add: newline_def)
  from tick_lines_first_unlines [OF nl, of 20 "Some ?j"]
  have first: "tick_lines 20 \<lparr>offset = 0, firstTail = True, job = Some ?j\<rparr> ?t =
      Inr (replicate 19 ''old'', \<lparr>offset = 1001, firstTail = False, job = Some ?j\<rparr>)"
    by simp
  have run: "\<forall>j'\<in>set [?j, ?j, ?j]. IsRunning (Status j')"
    by (simp add: IsRunning_def)
  have later: "later_lines ?t [?t @ unlines ?d] = [''new 2'', []]"
    by (subst later_lines_unlines) (simp_all add: newline_def)
  from DoTrace_growing [of ?j "[?j, ?j]" "[unlines ?d]" 20 ?t _ _ u, OF _ _ first] run
  show ?thesis
    by (simp add: later unlines_append del: later_lines.simps re_ReplaceAllString.simps)
qed

section \<open>When the loop ends\<close>

lemma loop_while_running:
  "job st = Some j \<Longrightarrow> \<forall>j'\<in>set (butlast (j # js)). IsRunning (Status j') \<Longrightarrow>
   length ts = length js \<Longrightarrow>
   DoTrace_loop u pre tailLine st log (polls ts js) = (evs, st', out) \<Longrightarrow>
   \<forall>p. out \<noteq> Panicked p \<Longrightarrow>
   out = Ticking \<and> job st' = Some (last (j # js))
   \<and> trace_reads evs = trace_reads log + length ts
   \<and> job_reads evs = job_reads log + length ts"
proof (induction js arbitrary: ts j st log)
  case Nil
  then show ?case by (simp add: polls_def)
next
  case (Cons j1 js)
  from Cons.prems(3) obtain t1 ts' where ts: "ts = t1 # ts'" and len: "length ts' = length js"
    by (cases ts) auto
  from Cons.prems(2) have run: "IsRunning (Status j)"
    and run': "\<forall>j'\<in>set (butlast (j1 # js)). IsRunning (Status j')" by simp_all
  show ?case
  proof (cases "tick_lines tailLine st t1")
    case (Inl p)
    from DoTrace_loop_panic [OF Cons.prems(1) Inl] Cons.prems(4,5) ts show ?thesis
      by (auto simp add: polls_def simp del: DoTrace_loop.simps)
  next
    case (Inr a)
    then obtain new st1 where t1: "tick_lines tailLine st t1 = Inr (new, st1)" by (cases a) auto
    let ?log1 = "log @ GetTraceFile (ID j) #
                   map (\<lambda>line. Println (re_ReplaceAllString (pre @ line))) new @ [GetJob (ID j)]"
    note step = DoTrace_loop_running [OF Cons.prems(1) t1 run, of u pre log j1]
    from step Cons.prems(4) ts
    have "DoTrace_loop u pre tailLine (st1\<lparr>job := Some j1\<rparr>) ?log1 (polls ts' js) = (evs, st', out)"
      by (simp add: polls_def del: DoTrace_loop.simps)
    from Cons.IH [OF _ run' len this Cons.prems(5)] ts show ?thesis
      by simp
  qed
qed

text \<open>
  C3 (amended). The status looked at in a tick is the one held since the tick before: the
  job's status at the call of \<open>DoTrace\<close>, then what each \<open>GetJob\<close> answered. A tick
  that finds it created, pending or running reads the trace, prints the lines of that
  tick, fetches the job again and goes on to the next tick. Once a \<open>GetJob\<close> has
  answered another status, the loop is still waiting for the next tick, and it makes
  exactly one further: it reads the trace once further, prints the lines of that tick and
  returns, without another \<open>GetJob\<close>; whatever the later ticks would have brought
  plays no part. All of this is said of runs that do not panic.
\<close>

theorem DoTrace_polls_until_not_running:
  assumes "\<forall>j'\<in>set (j # js). IsRunning (Status j')"
    and "length ts = Suc (length js)"
    and "\<not> IsRunning (Status fin)"
    and "\<forall>p. outcome_of (DoTrace u j tailLine (polls ts (js @ [fin]) @ (Fetched t, r) # rest))
               \<noteq> Panicked p"
  shows "outcome_of (DoTrace u j tailLine (polls ts (js @ [fin]))) = Ticking
       \<and> job (state_of (DoTrace u j tailLine (polls ts (js @ [fin])))) = Some fin
       \<and> trace_reads (log_of (DoTrace u j tailLine (polls ts (js @ [fin])))) = length ts
       \<and> job_reads (log_of (DoTrace u j tailLine (polls ts (js @ [fin])))) = length ts
       \<and> (\<exists>new st'.
             tick_lines tailLine (state_of (DoTrace u j tailLine (polls ts (js @ [fin])))) t =
               Inr (new, st')
             \<and> DoTrace u j tailLine (polls ts (js @ [fin]) @ (Fetched t, r) # rest) =
                 (log_of (DoTrace u j tailLine (polls ts (js @ [fin]))) @
                    GetTraceFile (ID fin) #
                    map (\<lambda>line. Println (re_ReplaceAllString
                                           (RandomColor u (''['' @ Name j @ ''] '') @ line))) new,
                  st', Returned))
       \<and> outcome_of (DoTrace u j tailLine (polls ts (js @ [fin]) @ (Fetched t, r) # rest)) = Returned
       \<and> trace_reads (log_of (DoTrace u j tailLine (polls ts (js @ [fin]) @ (Fetched t, r) # rest)))
           = length ts + 1
       \<and> job_reads (log_of (DoTrace u j tailLine (polls ts (js @ [fin]) @ (Fetched t, r) # rest)))
           = length ts
       \<and> DoTrace u j tailLine (polls ts (js @ [fin]) @ (Fetched t, r) # rest) =
           DoTrace u j tailLine (polls ts (js @ [fin]) @ [(Fetched t, r)])
       \<and> ((\<forall>p. outcome_of (DoTrace u j tailLine (polls (butlast ts) js)) \<noteq> Panicked p) \<longrightarrow>
            outcome_of (DoTrace u j tailLine (polls (butlast ts) js)) = Ticking
            \<and> trace_reads (log_of (DoTrace u j tailLine (polls (butlast ts) js))) = length js
            \<and> job_reads (log_of (DoTrace u j tailLine (polls (butlast ts) js))) = length js)
       \<and> (\<forall>st log j0 t0 j1 further new st1.
             job st = Some j0 \<and> IsRunning (Status j0) \<and> tick_lines tailLine st t0 = Inr (new, st1) \<longrightarrow>
             DoTrace_loop u pre tailLine st log ((Fetched t0, Fetched j1) # further) =
               DoTrace_loop u pre tailLine (st1\<lparr>job := Some j1\<rparr>)
                 (log @ GetTraceFile (ID j0) #
                    map (\<lambda>line. Println (re_ReplaceAllString (pre @ line))) new @ [GetJob (ID j0)])
                 further)"
proof -
  define p0 where "p0 = RandomColor u (''['' @ Name j @ ''] '')"
  let ?st0 = "\<lparr>offset = 0, firstTail = True, job = Some j\<rparr>"
  let ?P = "polls ts (js @ [fin])"
  have D: "DoTrace u j tailLine x = DoTrace_loop u p0 tailLine ?st0 [] x" for x
    by (simp add: DoTrace_def p0_def)
  obtain lb sb ob where b: "DoTrace_loop u p0 tailLine ?st0 [] ?P = (lb, sb, ob)"
    by (cases "DoTrace_loop u p0 tailLine ?st0 [] ?P") auto
  have full: "DoTrace_loop u p0 tailLine ?st0 [] (?P @ (Fetched t, r) # further) =
                (case ob of Ticking \<Rightarrow> DoTrace_loop u p0 tailLine sb lb ((Fetched t, r) # further)
                 | _ \<Rightarrow> (lb, sb, ob))" for further
    by (subst DoTrace_loop_append) (simp only: b, simp split: outcome.splits)
  from assms(4) have np: "\<forall>p. ob \<noteq> Panicked p"
    unfolding D outcome_of_def full [of rest] by auto
  from assms(1) have run: "\<forall>j'\<in>set (butlast (j # js @ [fin])). IsRunning (Status j')"
    by (simp add: butlast_append)
  from assms(2) have len: "length ts = length (js @ [fin])" by simp
  from loop_while_running [OF _ run len b np]
  have ob: "ob = Ticking" and sb: "job sb = Some fin"
    and tr: "trace_reads lb = length ts" and jr: "job_reads lb = length ts"
    by simp_all
  have before: "DoTrace u j tailLine ?P = (lb, sb, Ticking)"
    unfolding D using b ob by simp
  have after: "DoTrace u j tailLine (?P @ (Fetched t, r) # further) =
                 DoTrace_loop u p0 tailLine sb lb ((Fetched t, r) # further)" for further
    unfolding D full [of further] using ob by simp
  obtain new st' where tick: "tick_lines tailLine sb t = Inr (new, st')"
  proof (cases "tick_lines tailLine sb t")
    case (Inl p)
    from assms(4) show ?thesis
      unfolding after [of rest] DoTrace_loop_panic [OF sb Inl] outcome_of_def by simp
  next
    case (Inr a)
    with that show ?thesis by (cases a) auto
  qed
  have last: "DoTrace u j tailLine (?P @ (Fetched t, r) # further) =
                (lb @ GetTraceFile (ID fin) #
                   map (\<lambda>line. Println (re_ReplaceAllString (p0 @ line))) new,
                 st', Returned)" for further
    unfolding after [of further] by (rule DoTrace_loop_finished [OF sb tick assms(3)])
  have earlier: "outcome_of (DoTrace u j tailLine (polls (butlast ts) js)) = Ticking
            \<and> trace_reads (log_of (DoTrace u j tailLine (polls (butlast ts) js))) = length js
            \<and> job_reads (log_of (DoTrace u j tailLine (polls (butlast ts) js))) = length js"
    if "\<forall>p. outcome_of (DoTrace u j tailLine (polls (butlast ts) js)) \<noteq> Panicked p"
  proof -
    obtain evs' st'' out' where
      r': "DoTrace_loop u p0 tailLine ?st0 [] (polls (butlast ts) js) = (evs', st'', out')"
      by (cases "DoTrace_loop u p0 tailLine ?st0 [] (polls (butlast ts) js)") auto
    with that have np': "\<forall>p. out' \<noteq> Panicked p"
      unfolding D outcome_of_def by simp
    from assms(2) have len': "length (butlast ts) = length js" by simp
    from assms(1) have run': "\<forall>j'\<in>set (butlast (j # js)). IsRunning (Status j')"
      by (auto dest: in_set_butlastD)
    from loop_while_running [OF _ run' len' r' np'] r' len' show ?thesis
      unfolding D outcome_of_def log_of_def by simp
  qed
  have step: "DoTrace_loop u pre tailLine st log ((Fetched t0, Fetched j1) # further) =
               DoTrace_loop u pre tailLine (st1\<lparr>job := Some j1\<rparr>)
                 (log @ GetTraceFile (ID j0) #
                    map (\<lambda>line. Println (re_ReplaceAllString (pre @ line))) new @ [GetJob (ID j0)])
                 further"
    if "job st = Some j0 \<and> IsRunning (Status j0) \<and> tick_lines tailLine st t0 = Inr (new, st1)"
    for st log j0 t0 j1 further new st1
    using that DoTrace_loop_running [of st j0 tailLine t0 new st1 u pre log j1 further] by blast
  have c1: "outcome_of (DoTrace u j tailLine ?P) = Ticking"
    and c2: "job (state_of (DoTrace u j tailLine ?P)) = Some fin"
    and c3: "trace_reads (log_of (DoTrace u j tailLine ?P)) = length ts"
    and c4: "job_reads (log_of (DoTrace u j tailLine ?P)) = length ts"
    unfolding before using sb tr jr by (simp_all add: outcome_of_def state_of_def log_of_def)
  have "tick_lines tailLine (state_of (DoTrace u j tailLine ?P)) t = Inr (new, st')
        \<and> DoTrace u j tailLine (?P @ (Fetched t, r) # rest) =
            (log_of (DoTrace u j tailLine ?P) @ GetTraceFile (ID fin) #
               map (\<lambda>line. Println (re_ReplaceAllString
                                      (RandomColor u (''['' @ Name j @ ''] '') @ line))) new,
             st', Returned)"
    unfolding last [of rest] before using tick by (simp add: state_of_def log_of_def p0_def)
  then have c5: "\<exists>new st'.
             tick_lines tailLine (state_of (DoTrace u j tailLine ?P)) t = Inr (new, st')
             \<and> DoTrace u j tailLine (?P @ (Fetched t, r) # rest) =
                 (log_of (DoTrace u j tailLine ?P) @ GetTraceFile (ID fin) #
                    map (\<lambda>line. Println (re_ReplaceAllString
                                           (RandomColor u (''['' @ Name j @ ''] '') @ line))) new,
                  st', Returned)"
    by blast
  have c6: "outcome_of (DoTrace u j tailLine (?P @ (Fetched t, r) # rest)) = Returned"
    and c7: "trace_reads (log_of (DoTrace u j tailLine (?P @ (Fetched t, r) # rest))) = length ts + 1"
    and c8: "job_reads (log_of (DoTrace u j tailLine (?P @ (Fetched t, r) # rest))) = length ts"
    unfolding last [of rest] using tr jr by (simp_all add: outcome_of_def log_of_def)
  have c9: "DoTrace u j tailLine (?P @ (Fetched t, r) # rest) =
              DoTrace u j tailLine (?P @ [(Fetched t, r)])"
    unfolding last [of rest] last [of "[]"] by (rule refl)
  from c1 c2 c3 c4 c5 c6 c7 c8 c9 earlier step show ?thesis by blast
qed

lemma build_first_tick:
  "DoTrace_loop u ''[build] '' 20
     \<lparr>offset = 0, firstTail = True, job = Some \<lparr>ID = 7, Name = ''build'', Status = ''running''\<rparr>\<rparr>
     log ((Fetched (unlines [''a'']), Fetched j') # ticks) =
   DoTrace_loop u ''[build] '' 20 \<lparr>offset = 2, firstTail = False, job = Some j'\<rparr>
     (log @ [GetTraceFile 7, Println ''[build] a'', GetJob 7]) ticks"
proof -
  let ?j = "\<lparr>ID = 7, Name = ''build'', Status = ''running''\<rparr>"
  have nl: "\<forall>l\<in>set [''a'']. newline \<notin> set l" by (simp add: newline_def)
  from tick_lines_first_unlines [OF nl, of 20 "Some ?j"]
  have t1: "tick_lines 20 \<lparr>offset = 0, firstTail = True, job = Some ?j\<rparr> (unlines [''a'']) =
      Inr ([''a''], \<lparr>offset = 2, firstTail = False, job = Some ?j\<rparr>)"
    by simp
  have run: "IsRunning (Status ?j)" by (simp add: IsRunning_def)
  from DoTrace_loop_running [OF _ t1 run, of u "''[build] ''" log j' ticks] show ?thesis
    by (simp add: re_no_clr clr0K_def strings_HasPrefix_def
          del: DoTrace_loop.simps re_ReplaceAllString.simps)
qed

lemma build_second_tick:
  "DoTrace_loop u ''[build] '' 20
     \<lparr>offset = 2, firstTail = False, job = Some \<lparr>ID = 7, Name = ''build'', Status = ''success''\<rparr>\<rparr>
     log ((Fetched (unlines [''a'', ''b'', ''c'']), r) # ticks) =
   (log @ [GetTraceFile 7, Println ''[build] c'', Println ''[build] ''],
    \<lparr>offset = 4, firstTail = False, job = Some \<lparr>ID = 7, Name = ''build'', Status = ''success''\<rparr>\<rparr>,
    Returned)"
proof -
  let ?f = "\<lparr>ID = 7, Name = ''build'', Status = ''success''\<rparr>"
  have sp: "strings_Split (unlines [''a'', ''b'', ''c'']) newline = [''a'', ''b'', ''c'', []]"
    by (subst Split_unlines) (simp_all add: newline_def)
  have t2: "tick_lines 20 \<lparr>offset = 2, firstTail = False, job = Some ?f\<rparr>
              (unlines [''a'', ''b'', ''c'']) =
      Inr ([''c'', []], \<lparr>offset = 4, firstTail = False, job = Some ?f\<rparr>)"
    by (subst tick_lines_later) (simp_all add: sp)
  have fin: "\<not> IsRunning (Status ?f)" by (simp add: IsRunning_def)
  from DoTrace_loop_finished [OF _ t2 fin, of u "''[build] ''" log r ticks] show ?thesis
    by (simp add: re_no_clr clr0K_def strings_HasPrefix_def
          del: DoTrace_loop.simps re_ReplaceAllString.simps)
qed

lemma success_after_one_tick:
  "DoTrace \<lparr>Check_returns = c, RandomColor = (\<lambda>s. s)\<rparr>
      \<lparr>ID = 7, Name = ''build'', Status = ''running''\<rparr> 20
      ((Fetched (unlines [''a'']), Fetched \<lparr>ID = 7, Name = ''build'', Status = ''success''\<rparr>) #
       (Fetched (unlines [''a'', ''b'', ''c'']), r) # rest) =
     ([GetTraceFile 7, Println ''[build] a'', GetJob 7,
       GetTraceFile 7, Println ''[build] c'', Println ''[build] ''],
      \<lparr>offset = 4, firstTail = False, job = Some \<lparr>ID = 7, Name = ''build'', Status = ''success''\<rparr>\<rparr>,
      Returned)"
  by (simp add: DoTrace_def build_first_tick build_second_tick del: DoTrace_loop.simps)

theorem DoTrace_polls_until_not_running_witness:
  "DoTrace \<lparr>Check_returns = False, RandomColor = (\<lambda>s. s)\<rparr>
      \<lparr>ID = 7, Name = ''build'', Status = ''running''\<rparr> 20
      (polls [unlines [''a'']] ([] @ [\<lparr>ID = 7, Name = ''build'', Status = ''success''\<rparr>]) @
       (Fetched (unlines [''a'', ''b'', ''c'']), FetchError ''unused'' None) #
       [(FetchError ''unused'' None, FetchError ''unused'' None)]) =
     ([GetTraceFile 7, Println ''[build] a'', GetJob 7,
       GetTraceFile 7, Println ''[build] c'', Println ''[build] ''],
      \<lparr>offset = 4, firstTail = False, job = Some \<lparr>ID = 7, Name = ''build'', Status = ''success''\<rparr>\<rparr>,
      Returned)
   \<and> outcome_of (DoTrace \<lparr>Check_returns = False, RandomColor = (\<lambda>s. s)\<rparr>
      \<lparr>ID = 7, Name = ''build'', Status = ''running''\<rparr> 20
      (polls [unlines [''a'']] ([] @ [\<lparr>ID = 7, Name = ''build'', Status = ''success''\<rparr>]))) = Ticking
   \<and> trace_reads (log_of (DoTrace \<lparr>Check_returns = False, RandomColor = (\<lambda>s. s)\<rparr>
      \<lparr>ID = 7, Name = ''build'', Status = ''running''\<rparr> 20
      (polls [unlines [''a'']] ([] @ [\<lparr>ID = 7, Name = ''build'', Status = ''success''\<rparr>]) @
       (Fetched (unlines [''a'', ''b'', ''c'']), FetchError ''unused'' None) #
       [(FetchError ''unused'' None, FetchError ''unused'' None)]))) = 2
   \<and> job_reads (log_of (DoTrace \<lparr>Check_returns = False, RandomColor = (\<lambda>s. s)\<rparr>
      \<lparr>ID = 7, Name = ''build'', Status = ''running''\<rparr> 20
      (polls [unlines [''a'']] ([] @ [\<lparr>ID = 7, Name = ''build'', Status = ''success''\<rparr>]) @
       (Fetched (unlines [''a'', ''b'', ''c'']), FetchError ''unused'' None) #
       [(FetchError ''unused'' None, FetchError ''unused'' None)]))) = 1"
proof -
  let ?u = "\<lparr>Check_returns = False, RandomColor = (\<lambda>s. s)\<rparr>"
  let ?j = "\<lparr>ID = 7, Name = ''build'', Status = ''running''\<rparr>"
  let ?f = "\<lparr>ID = 7, Name = ''build'', Status = ''success''\<rparr>"
  let ?P = "polls [unlines [''a'']] ([] @ [?f])"
  let ?run = "DoTrace ?u ?j 20
      (?P @ (Fetched (unlines [''a'', ''b'', ''c'']), FetchError ''unused'' None) #
       [(FetchError ''unused'' None, FetchError ''unused'' None)])"
  have run: "\<forall>j'\<in>set (?j # []). IsRunning (Status j')" by (simp add: IsRunning_def)
  have len: "length [unlines [''a'']] = Suc (length ([] :: Job list))" by simp
  have fin: "\<not> IsRunning (Status ?f)" by (simp add: IsRunning_def)
  have "outcome_of ?run = Returned"
    using success_after_one_tick [of False "FetchError ''unused'' None"
        "[(FetchError ''unused'' None, FetchError ''unused'' None)]"]
    by (simp add: polls_def outcome_of_def del: DoTrace_loop.simps)
  then have np: "\<forall>p. outcome_of ?run \<noteq> Panicked p" by simp
  note t = DoTrace_polls_until_not_running [OF run len fin np]
  have before: "DoTrace ?u ?j 20 ?P =
      ([GetTraceFile 7, Println ''[build] a'', GetJob 7],
       \<lparr>offset = 2, firstTail = False, job = Some ?f\<rparr>, Ticking)"
    by (simp add: DoTrace_def polls_def build_first_tick del: DoTrace_loop.simps(2))
  from t have ticking: "outcome_of (DoTrace ?u ?j 20 ?P) = Ticking"
    by (rule conjunct1)
  from t [THEN conjunct2, THEN conjunct2, THEN conjunct2, THEN conjunct2, THEN conjunct1]
  obtain new st' where
    tk: "tick_lines 20 (state_of (DoTrace ?u ?j 20 ?P)) (unlines [''a'', ''b'', ''c'']) = Inr (new, st')"
    and eq: "?run = (log_of (DoTrace ?u ?j 20 ?P) @ GetTraceFile (ID ?f) #
                      map (\<lambda>line. Println (re_ReplaceAllString
                                             (RandomColor ?u (''['' @ Name ?j @ ''] '') @ line))) new,
                     st', Returned)"
    by blast
  have sp: "strings_Split (unlines [''a'', ''b'', ''c'']) newline = [''a'', ''b'', ''c'', []]"
    by (subst Split_unlines) (simp_all add: newline_def)
  have t2: "tick_lines 20 \<lparr>offset = 2, firstTail = False, job = Some ?f\<rparr>
              (unlines [''a'', ''b'', ''c'']) =
      Inr ([''c'', []], \<lparr>offset = 4, firstTail = False, job = Some ?f\<rparr>)"
    by (subst tick_lines_later) (simp_all add: sp)
  from tk have new: "new = [''c'', []]"
    and st': "st' = \<lparr>offset = 4, firstTail = False, job = Some ?f\<rparr>"
    unfolding before state_of_def by (simp_all add: t2)
  have full: "?run =
     ([GetTraceFile 7, Println ''[build] a'', GetJob 7,
       GetTraceFile 7, Println ''[build] c'', Println ''[build] ''],
      \<lparr>offset = 4, firstTail = False, job = Some ?f\<rparr>, Returned)"
    unfolding eq before new st' log_of_def
    by (simp add: re_no_clr clr0K_def strings_HasPrefix_def del: re_ReplaceAllString.simps)
  from full ticking show ?thesis
    by (simp add: log_of_def del: DoTrace_loop.simps)
qed

text \<open>
  C3 as stated fails: after the \<open>GetJob\<close> of the first tick has answered \<open>success\<close>, the
  loop does not stop at once. It reads the trace again in a second tick, prints what that
  read brings, and only then returns.
\<close>

theorem DoTrace_reads_trace_after_success_counterexample:
  "DoTrace \<lparr>Check_returns = False, RandomColor = (\<lambda>s. s)\<rparr>
      \<lparr>ID = 7, Name = ''build'', Status = ''running''\<rparr> 20
      [(Fetched (unlines [''a'']), Fetched \<lparr>ID = 7, Name = ''build'', Status = ''success''\<rparr>),
       (Fetched (unlines [''a'', ''b'', ''c'']),
        Fetched \<lparr>ID = 7, Name = ''build'', Status = ''success''\<rparr>)] =
     ([GetTraceFile 7, Println ''[build] a'', GetJob 7,
       GetTraceFile 7, Println ''[build] c'', Println ''[build] ''],
      \<lparr>offset = 4, firstTail = False, job = Some \<lparr>ID = 7, Name = ''build'', Status = ''success''\<rparr>\<rparr>,
      Returned)"
  by (rule success_after_one_tick)

section \<open>A fetch that fails\<close>

lemma DoTrace_loop_Cons:
  "DoTrace_loop u pre tailLine st log (tick # rest) =
     (case DoTrace_loop u pre tailLine st log [tick] of
        (log', st', Ticking) \<Rightarrow> DoTrace_loop u pre tailLine st' log' rest
      | r \<Rightarrow> r)"
  using DoTrace_loop_append [of u pre tailLine st log "[tick]" rest]
  by (simp del: DoTrace_loop.simps)

lemma DoTrace_loop_from_Nil:
  "DoTrace_loop u pre tailLine st log ticks =
     (log @ fst (DoTrace_loop u pre tailLine st [] ticks),
      snd (DoTrace_loop u pre tailLine st [] ticks))"
  using DoTrace_loop_log [of u pre tailLine st log "[]" ticks]
  by (simp add: split_beta del: DoTrace_loop.simps)

text \<open>
  A tick of a goroutine leaves the outcome of what the goroutine has left to do as it
  was, or is the end of it.
\<close>

lemma remaining_step:
  assumes "g_ticks g = tick # rest"
    and "DoTrace_loop u (g_prefix g) tailLine (g_state g) log [tick] = (log', st', out)"
  shows "outcome_of (remaining u tailLine g) =
           (if out = Ticking
            then outcome_of (remaining u tailLine (g\<lparr>g_state := st', g_ticks := rest\<rparr>))
            else out)"
proof -
  from assms(2) DoTrace_loop_from_Nil [of u "g_prefix g" tailLine "g_state g" log "[tick]"]
  have one: "snd (DoTrace_loop u (g_prefix g) tailLine (g_state g) [] [tick]) = (st', out)"
    by (simp del: DoTrace_loop.simps)
  obtain l0 where l0: "DoTrace_loop u (g_prefix g) tailLine (g_state g) [] [tick] = (l0, st', out)"
    using one by (cases "DoTrace_loop u (g_prefix g) tailLine (g_state g) [] [tick]") auto
  have "remaining u tailLine g =
          (case out of Ticking \<Rightarrow> DoTrace_loop u (g_prefix g) tailLine st' l0 rest
           | _ \<Rightarrow> (l0, st', out))"
    unfolding remaining_def assms(1)
    by (subst DoTrace_loop_Cons) (simp only: l0, simp split: outcome.splits)
  moreover have "snd (snd (DoTrace_loop u (g_prefix g) tailLine st' l0 rest)) =
                 snd (snd (DoTrace_loop u (g_prefix g) tailLine st' [] rest))"
    by (subst DoTrace_loop_from_Nil) simp
  ultimately show ?thesis
    by (simp add: remaining_def outcome_of_def split: outcome.splits)
qed

text \<open>
  While a goroutine has not returned and what it has left to do does not end by
  returning, the process does not get past \<open>wg.Wait()\<close>, however it is scheduled.
\<close>

lemma goroutines_run_not_returned:
  "k < length gs \<Longrightarrow> \<not> g_returned (gs ! k) \<Longrightarrow>
   outcome_of (remaining u tailLine (gs ! k)) \<noteq> Returned \<Longrightarrow>
   outcome_of (goroutines_run u tailLine gs log schedule) \<noteq> Returned"
proof (induction schedule arbitrary: gs log)
  case Nil
  then have "\<not> list_all g_returned gs" by (auto simp: list_all_length)
  then show ?case by (simp add: outcome_of_def)
next
  case (Cons i schedule)
  from Cons.prems(1,2) have nall: "\<not> list_all g_returned gs" by (auto simp: list_all_length)
  show ?case
  proof (cases "length gs \<le> i \<or> g_returned (gs ! i) \<or> g_ticks (gs ! i) = []")
    case True
    with nall Cons.IH [OF Cons.prems] show ?thesis by simp
  next
    case False
    then obtain tick rest where ticks: "g_ticks (gs ! i) = tick # rest"
      by (cases "g_ticks (gs ! i)") auto
    obtain log' st' out where
      d: "DoTrace_loop u (g_prefix (gs ! i)) tailLine (g_state (gs ! i)) log [tick] = (log', st', out)"
      by (cases "DoTrace_loop u (g_prefix (gs ! i)) tailLine (g_state (gs ! i)) log [tick]") auto
    note rs = remaining_step [OF ticks d]
    let ?g = "(gs ! i)\<lparr>g_state := st', g_ticks := rest\<rparr>"
    show ?thesis
    proof (cases out)
      case Ticking
      have k: "k < length (gs[i := ?g])" using Cons.prems(1) by simp
      have nr: "\<not> g_returned ((gs[i := ?g]) ! k)"
        using Cons.prems(1,2) by (cases "k = i") simp_all
      have rem: "outcome_of (remaining u tailLine ((gs[i := ?g]) ! k)) \<noteq> Returned"
        using Cons.prems rs Ticking by (cases "k = i") simp_all
      from Cons.IH [OF k nr rem, of log'] nall False ticks d Ticking show ?thesis
        by (simp del: DoTrace_loop.simps)
    next
      case Returned
      let ?g' = "(gs ! i)\<lparr>g_state := st', g_ticks := rest, g_returned := True\<rparr>"
      from rs Returned Cons.prems(3) have ki: "k \<noteq> i" by auto
      have k: "k < length (gs[i := ?g'])" using Cons.prems(1) by simp
      have nr: "\<not> g_returned ((gs[i := ?g']) ! k)"
        using Cons.prems(1,2) ki by simp
      have rem: "outcome_of (remaining u tailLine ((gs[i := ?g']) ! k)) \<noteq> Returned"
        using Cons.prems ki by simp
      from Cons.IH [OF k nr rem, of log'] nall False ticks d Returned show ?thesis
        by (simp del: DoTrace_loop.simps)
    next
      case CheckNoReturn
      with nall False ticks d show ?thesis by (simp add: outcome_of_def del: DoTrace_loop.simps)
    next
      case (Panicked p)
      with nall False ticks d show ?thesis by (simp add: outcome_of_def del: DoTrace_loop.simps)
    qed
  qed
qed

text \<open>Once the process has ended or returned, no step of a goroutine follows.\<close>

lemma goroutines_run_ended:
  "outcome_of (goroutines_run u tailLine gs log schedule) \<noteq> Ticking \<Longrightarrow>
   goroutines_run u tailLine gs log (schedule @ further) = goroutines_run u tailLine gs log schedule"
proof (induction schedule arbitrary: gs log)
  case Nil
  then show ?case by (cases further) (auto simp: outcome_of_def split: if_splits)
next
  case (Cons i schedule)
  then show ?case
    by (auto simp: outcome_of_def simp del: DoTrace_loop.simps
          split: if_splits prod.splits outcome.splits)
qed

lemma TraceRunningJobs_not_returned:
  assumes "(j, ticks) \<in> set jobs" and "IsRunning (Status j)"
    and "outcome_of (DoTrace u j tailLine ticks) \<noteq> Returned"
  shows "fst (snd (TraceRunningJobs u jobs tailLine schedule)) \<noteq> Returned
       \<and> snd (snd (TraceRunningJobs u jobs tailLine schedule)) = None"
proof -
  let ?running = "filter (\<lambda>(j, ticks). IsRunning (Status j)) jobs"
  let ?start = "\<lambda>(j, ticks).
                      \<lparr>g_prefix = RandomColor u (''['' @ Name j @ ''] ''),
                       g_state = \<lparr>offset = 0, firstTail = True, job = Some j\<rparr>,
                       g_ticks = ticks, g_returned = False\<rparr>"
  from assms(1,2) have "(j, ticks) \<in> set ?running" by simp
  then obtain k where k: "k < length ?running" and at: "?running ! k = (j, ticks)"
    by (auto simp: in_set_conv_nth simp del: set_filter)
  from k have k': "k < length (map ?start ?running)" by simp
  from k at have g: "map ?start ?running ! k = ?start (j, ticks)" by simp
  have nr: "\<not> g_returned (map ?start ?running ! k)" unfolding g by simp
  have rem: "outcome_of (remaining u tailLine (map ?start ?running ! k)) \<noteq> Returned"
    unfolding g using assms(3) by (simp add: remaining_def DoTrace_def)
  from goroutines_run_not_returned [OF k' nr rem, of "[]" schedule]
  show ?thesis
    by (simp add: TraceRunningJobs_def Let_def outcome_of_def split_beta)
qed

lemma TraceRunningJobs_ended:
  assumes "fst (snd (TraceRunningJobs u jobs tailLine schedule)) \<noteq> Ticking"
  shows "TraceRunningJobs u jobs tailLine (schedule @ further) =
           TraceRunningJobs u jobs tailLine schedule"
proof -
  let ?running = "filter (\<lambda>(j, ticks). IsRunning (Status j)) jobs"
  let ?start = "\<lambda>(j, ticks).
                      \<lparr>g_prefix = RandomColor u (''['' @ Name j @ ''] ''),
                       g_state = \<lparr>offset = 0, firstTail = True, job = Some j\<rparr>,
                       g_ticks = ticks, g_returned = False\<rparr>"
  from assms have "outcome_of (goroutines_run u tailLine (map ?start ?running) [] schedule) \<noteq> Ticking"
    by (simp add: TraceRunningJobs_def Let_def outcome_of_def split_beta)
  from goroutines_run_ended [OF this, of further] show ?thesis
    by (simp add: TraceRunningJobs_def Let_def)
qed

lemma DoTrace_loop_fetch_error:
  "job st = Some j \<Longrightarrow>
   DoTrace_loop u pre tailLine st log ((FetchError err None, r) # rest) =
     (log @ [GetTraceFile (ID j), Check err], st,
      if Check_returns u then Panicked NilDereference else CheckNoReturn)"
  by (simp add: checked_def)

text \<open>
  C7 (amended). \<open>DoTrace\<close> has no branch of its own for a failed fetch: the error goes to
  \<open>utils.Check\<close>, and the tick is never left with the polling taken up again. When the
  trace fetch fails with a nil reader, the loop ends at that call: inside \<open>utils.Check\<close>
  if that does not return, and by the nil reader's panic in \<open>io.ReadAll\<close> if it does.
  When the job fetch fails with a nil job, the loop ends inside \<open>utils.Check\<close> or, if
  that returns, by the panic on \<open>job.ID\<close> at the next tick. In every case nothing more is
  requested or printed for that job and its \<open>DoTrace\<close> does not return. So, however the
  goroutines are scheduled, \<open>TraceRunningJobs\<close> does not return when the answers for one
  running job are such that its \<open>DoTrace\<close> does not return; and once the process has
  ended, by the panic of one goroutine or inside \<open>utils.Check\<close>, no other goroutine makes
  another step: the streamers of the other jobs end where they are. When the first trace
  fetch of a running job fails and that job's goroutine is the first to tick, the whole
  process has made that one request and printed nothing.
\<close>

theorem DoTrace_fetch_error_is_not_skipped:
  assumes "job st = Some j"
  shows "DoTrace_loop u pre tailLine st log ((FetchError err None, r) # rest) =
           (log @ [GetTraceFile (ID j), Check err], st,
            if Check_returns u then Panicked NilDereference else CheckNoReturn)
       \<and> (tick_lines tailLine st t = Inr (new, st') \<and> IsRunning (Status j) \<longrightarrow>
            DoTrace_loop u pre tailLine st log ((Fetched t, FetchError err None) # tick # rest) =
              (log @ GetTraceFile (ID j) #
                 map (\<lambda>line. Println (re_ReplaceAllString (pre @ line))) new @
                 [GetJob (ID j), Check err],
               if Check_returns u then st'\<lparr>job := None\<rparr> else st',
               if Check_returns u then Panicked NilDereference else CheckNoReturn))
       \<and> ((j', ticks) \<in> set jobs \<and> IsRunning (Status j')
            \<and> outcome_of (DoTrace u j' tailLine ticks) \<noteq> Returned \<longrightarrow>
            fst (snd (TraceRunningJobs u jobs tailLine schedule)) \<noteq> Returned
            \<and> snd (snd (TraceRunningJobs u jobs tailLine schedule)) = None)
       \<and> (fst (snd (TraceRunningJobs u jobs tailLine schedule)) \<noteq> Ticking \<longrightarrow>
            TraceRunningJobs u jobs tailLine (schedule @ further) =
              TraceRunningJobs u jobs tailLine schedule)
       \<and> (i < length (filter (\<lambda>(j, ticks). IsRunning (Status j)) jobs)
            \<and> filter (\<lambda>(j, ticks). IsRunning (Status j)) jobs ! i =
                (j', (FetchError err None, r) # rest) \<longrightarrow>
            TraceRunningJobs u jobs tailLine (i # schedule) =
              ([GetTraceFile (ID j'), Check err],
               if Check_returns u then Panicked NilDereference else CheckNoReturn,
               None))"
proof (intro conjI impI)
  from assms show "DoTrace_loop u pre tailLine st log ((FetchError err None, r) # rest) =
           (log @ [GetTraceFile (ID j), Check err], st,
            if Check_returns u then Panicked NilDereference else CheckNoReturn)"
    by (rule DoTrace_loop_fetch_error)
next
  assume "tick_lines tailLine st t = Inr (new, st') \<and> IsRunning (Status j)"
  with assms show "DoTrace_loop u pre tailLine st log ((Fetched t, FetchError err None) # tick # rest) =
              (log @ GetTraceFile (ID j) #
                 map (\<lambda>line. Println (re_ReplaceAllString (pre @ line))) new @
                 [GetJob (ID j), Check err],
               if Check_returns u then st'\<lparr>job := None\<rparr> else st',
               if Check_returns u then Panicked NilDereference else CheckNoReturn)"
    by (cases tick) (simp add: checked_def)
next
  assume a: "(j', ticks) \<in> set jobs \<and> IsRunning (Status j')
            \<and> outcome_of (DoTrace u j' tailLine ticks) \<noteq> Returned"
  with TraceRunningJobs_not_returned [of j' ticks jobs u tailLine schedule]
  show "fst (snd (TraceRunningJobs u jobs tailLine schedule)) \<noteq> Returned"
    and "snd (snd (TraceRunningJobs u jobs tailLine schedule)) = None"
    by blast+
next
  assume "fst (snd (TraceRunningJobs u jobs tailLine schedule)) \<noteq> Ticking"
  then show "TraceRunningJobs u jobs tailLine (schedule @ further) =
              TraceRunningJobs u jobs tailLine schedule"
    by (rule TraceRunningJobs_ended)
next
  let ?running = "filter (\<lambda>(j, ticks). IsRunning (Status j)) jobs"
  assume a: "i < length ?running \<and> ?running ! i = (j', (FetchError err None, r) # rest)"
  then have "\<not> list_all g_returned (map (\<lambda>(j, ticks).
                      \<lparr>g_prefix = RandomColor u (''['' @ Name j @ ''] ''),
                       g_state = \<lparr>offset = 0, firstTail = True, job = Some j\<rparr>,
                       g_ticks = ticks, g_returned = False\<rparr>) ?running)"
    by (auto simp: list_all_length split_beta)
  with a show "TraceRunningJobs u jobs tailLine (i # schedule) =
              ([GetTraceFile (ID j'), Check err],
               if Check_returns u then Panicked NilDereference else CheckNoReturn,
               None)"
    by (simp add: TraceRunningJobs_def Let_def checked_def)
qed

theorem DoTrace_fetch_error_is_not_skipped_witness:
  "DoTrace_loop \<lparr>Check_returns = False, RandomColor = (\<lambda>s. s)\<rparr> ''[unit] '' 20
     \<lparr>offset = 0, firstTail = True, job = Some \<lparr>ID = 1, Name = ''unit'', Status = ''running''\<rparr>\<rparr> []
     [(FetchError ''timeout'' None, Fetched \<lparr>ID = 1, Name = ''unit'', Status = ''running''\<rparr>)] =
     ([GetTraceFile 1, Check ''timeout''],
      \<lparr>offset = 0, firstTail = True, job = Some \<lparr>ID = 1, Name = ''unit'', Status = ''running''\<rparr>\<rparr>,
      CheckNoReturn)
   \<and> DoTrace_loop \<lparr>Check_returns = False, RandomColor = (\<lambda>s. s)\<rparr> ''[unit] '' 20
     \<lparr>offset = 0, firstTail = True, job = Some \<lparr>ID = 1, Name = ''unit'', Status = ''running''\<rparr>\<rparr> []
     [(Fetched (unlines [''ok'']), FetchError ''timeout'' None),
      (Fetched (unlines [''ok'']), Fetched \<lparr>ID = 1, Name = ''unit'', Status = ''running''\<rparr>)] =
     ([GetTraceFile 1, Println ''[unit] ok'', GetJob 1, Check ''timeout''],
      \<lparr>offset = 2, firstTail = False, job = Some \<lparr>ID = 1, Name = ''unit'', Status = ''running''\<rparr>\<rparr>,
      CheckNoReturn)
   \<and> TraceRunningJobs \<lparr>Check_returns = False, RandomColor = (\<lambda>s. s)\<rparr>
        [(\<lparr>ID = 1, Name = ''unit'', Status = ''running''\<rparr>,
          [(FetchError ''timeout'' None,
            Fetched \<lparr>ID = 1, Name = ''unit'', Status = ''running''\<rparr>)])] 20 [0] =
       ([GetTraceFile 1, Check ''timeout''], CheckNoReturn, None)
   \<and> TraceRunningJobs \<lparr>Check_returns = False, RandomColor = (\<lambda>s. s)\<rparr>
        [(\<lparr>ID = 1, Name = ''unit'', Status = ''running''\<rparr>,
          [(FetchError ''timeout'' None,
            Fetched \<lparr>ID = 1, Name = ''unit'', Status = ''running''\<rparr>)])] 20 ([0] @ [0, 0]) =
       ([GetTraceFile 1, Check ''timeout''], CheckNoReturn, None)
   \<and> snd (snd (TraceRunningJobs \<lparr>Check_returns = False, RandomColor = (\<lambda>s. s)\<rparr>
        [(\<lparr>ID = 1, Name = ''unit'', Status = ''running''\<rparr>,
          [(FetchError ''timeout'' None,
            Fetched \<lparr>ID = 1, Name = ''unit'', Status = ''running''\<rparr>)])] 20 [0])) = None"
proof -
  let ?u = "\<lparr>Check_returns = False, RandomColor = (\<lambda>s. s)\<rparr>"
  let ?j = "\<lparr>ID = 1, Name = ''unit'', Status = ''running''\<rparr>"
  let ?st = "\<lparr>offset = 0, firstTail = True, job = Some ?j\<rparr>"
  let ?ticks = "[(FetchError ''timeout'' None, Fetched ?j)]"
  have j: "job ?st = Some ?j" by simp
  have nl: "\<forall>l\<in>set [''ok'']. newline \<notin> set l" by (simp add: newline_def)
  from tick_lines_first_unlines [OF nl, of 20 "Some ?j"]
  have tick: "tick_lines 20 ?st (unlines [''ok'']) =
      Inr ([''ok''], \<lparr>offset = 2, firstTail = False, job = Some ?j\<rparr>)"
    by simp
  have run: "IsRunning (Status ?j)" by (simp add: IsRunning_def)
  have out: "outcome_of (DoTrace ?u ?j 20 ?ticks) \<noteq> Returned"
    by (simp add: outcome_of_def DoTrace_def checked_def)
  have at: "0 < length (filter (\<lambda>(j, ticks). IsRunning (Status j)) [(?j, ?ticks)])
            \<and> filter (\<lambda>(j, ticks). IsRunning (Status j)) [(?j, ?ticks)] ! 0 =
                (?j, (FetchError ''timeout'' None, Fetched ?j) # [])"
    by (simp add: IsRunning_def)
  note t0 = DoTrace_fetch_error_is_not_skipped
    [OF j, of ?u "''[unit] ''" 20 "[]" "''timeout''" "Fetched ?j" "[]" "unlines [''ok'']" "[''ok'']"
       "\<lparr>offset = 2, firstTail = False, job = Some ?j\<rparr>"
       "(Fetched (unlines [''ok'']), Fetched ?j)" ?j ?ticks "[(?j, ?ticks)]" "[]" "[]" 0]
  note t1 = DoTrace_fetch_error_is_not_skipped
    [OF j, of ?u "''[unit] ''" 20 "[]" "''timeout''" "Fetched ?j" "[]" "unlines [''ok'']" "[''ok'']"
       "\<lparr>offset = 2, firstTail = False, job = Some ?j\<rparr>"
       "(Fetched (unlines [''ok'']), Fetched ?j)" ?j ?ticks "[(?j, ?ticks)]" "[0]" "[0, 0]" 0]
  from t0 [THEN conjunct1] have a: "DoTrace_loop ?u ''[unit] '' 20 ?st [] ?ticks =
      ([GetTraceFile 1, Check ''timeout''], ?st, CheckNoReturn)"
    by (simp del: DoTrace_loop.simps)
  from t0 [THEN conjunct2, THEN conjunct1, THEN mp, OF conjI [OF tick run]]
  have b: "DoTrace_loop ?u ''[unit] '' 20 ?st []
      [(Fetched (unlines [''ok'']), FetchError ''timeout'' None),
       (Fetched (unlines [''ok'']), Fetched ?j)] =
      ([GetTraceFile 1, Println ''[unit] ok'', GetJob 1, Check ''timeout''],
       \<lparr>offset = 2, firstTail = False, job = Some ?j\<rparr>, CheckNoReturn)"
    by (simp add: re_no_clr clr0K_def strings_HasPrefix_def
          del: DoTrace_loop.simps re_ReplaceAllString.simps)
  from t0 [THEN conjunct2, THEN conjunct2, THEN conjunct2, THEN conjunct2, THEN mp, OF at]
  have c: "TraceRunningJobs ?u [(?j, ?ticks)] 20 [0] =
      ([GetTraceFile 1, Check ''timeout''], CheckNoReturn, None)"
    by (simp del: DoTrace_loop.simps goroutines_run.simps)
  then have nt: "fst (snd (TraceRunningJobs ?u [(?j, ?ticks)] 20 [0])) \<noteq> Ticking" by simp
  from t1 [THEN conjunct2, THEN conjunct2, THEN conjunct2, THEN conjunct1, THEN mp, OF nt] c
  have d: "TraceRunningJobs ?u [(?j, ?ticks)] 20 ([0] @ [0, 0]) =
      ([GetTraceFile 1, Check ''timeout''], CheckNoReturn, None)"
    by (simp del: DoTrace_loop.simps goroutines_run.simps)
  have mem: "(?j, ?ticks) \<in> set [(?j, ?ticks)] \<and> IsRunning (Status ?j)
             \<and> outcome_of (DoTrace ?u ?j 20 ?ticks) \<noteq> Returned"
    using run out by simp
  from t1 [THEN conjunct2, THEN conjunct2, THEN conjunct1, THEN mp, OF mem]
  have e: "snd (snd (TraceRunningJobs ?u [(?j, ?ticks)] 20 [0])) = None"
    by (rule conjunct2)
  from a b c d e show ?thesis by (simp del: DoTrace_loop.simps goroutines_run.simps)
qed

text \<open>
  C7 as stated fails. Two running jobs are traced; the first trace fetch of job 1 fails,
  with a nil reader, and all later fetches of both jobs would succeed. Job 1 makes no
  second tick: its run ends at the failed call. If \<open>utils.Check\<close> returns, the nil
  reader's panic ends the process: when job 1 ticks first, job 7 has requested and
  printed nothing, and when job 7 has made its first tick before, it never makes its
  second, which alone it would have made, printing two more lines and returning. If
  \<open>utils.Check\<close> does not return, \<open>TraceRunningJobs\<close> does not return either.
\<close>

theorem TraceRunningJobs_fetch_error_counterexample:
  "TraceRunningJobs \<lparr>Check_returns = True, RandomColor = (\<lambda>s. s)\<rparr>
     [(\<lparr>ID = 1, Name = ''unit'', Status = ''running''\<rparr>,
       [(FetchError ''timeout'' None, Fetched \<lparr>ID = 1, Name = ''unit'', Status = ''running''\<rparr>),
        (Fetched (unlines [''ok'']), Fetched \<lparr>ID = 1, Name = ''unit'', Status = ''success''\<rparr>),
        (Fetched (unlines [''ok'']), Fetched \<lparr>ID = 1, Name = ''unit'', Status = ''success''\<rparr>)]),
      (\<lparr>ID = 7, Name = ''build'', Status = ''running''\<rparr>,
       [(Fetched (unlines [''a'']), Fetched \<lparr>ID = 7, Name = ''build'', Status = ''success''\<rparr>),
        (Fetched (unlines [''a'', ''b'', ''c'']),
         Fetched \<lparr>ID = 7, Name = ''build'', Status = ''success''\<rparr>)])] 20 [0, 1, 1, 0] =
   ([GetTraceFile 1, Check ''timeout''], Panicked NilDereference, None)
   \<and> TraceRunningJobs \<lparr>Check_returns = True, RandomColor = (\<lambda>s. s)\<rparr>
     [(\<lparr>ID = 1, Name = ''unit'', Status = ''running''\<rparr>,
       [(FetchError ''timeout'' None, Fetched \<lparr>ID = 1, Name = ''unit'', Status = ''running''\<rparr>),
        (Fetched (unlines [''ok'']), Fetched \<lparr>ID = 1, Name = ''unit'', Status = ''success''\<rparr>),
        (Fetched (unlines [''ok'']), Fetched \<lparr>ID = 1, Name = ''unit'', Status = ''success''\<rparr>)]),
      (\<lparr>ID = 7, Name = ''build'', Status = ''running''\<rparr>,
       [(Fetched (unlines [''a'']), Fetched \<lparr>ID = 7, Name = ''build'', Status = ''success''\<rparr>),
        (Fetched (unlines [''a'', ''b'', ''c'']),
         Fetched \<lparr>ID = 7, Name = ''build'', Status = ''success''\<rparr>)])] 20 [1, 0, 1, 0] =
   ([GetTraceFile 7, Println ''[build] a'', GetJob 7, GetTraceFile 1, Check ''timeout''],
    Panicked NilDereference, None)
   \<and> TraceRunningJobs \<lparr>Check_returns = False, RandomColor = (\<lambda>s. s)\<rparr>
     [(\<lparr>ID = 1, Name = ''unit'', Status = ''running''\<rparr>,
       [(FetchError ''timeout'' None, Fetched \<lparr>ID = 1, Name = ''unit'', Status = ''running''\<rparr>),
        (Fetched (unlines [''ok'']), Fetched \<lparr>ID = 1, Name = ''unit'', Status = ''success''\<rparr>),
        (Fetched (unlines [''ok'']), Fetched \<lparr>ID = 1, Name = ''unit'', Status = ''success''\<rparr>)]),
      (\<lparr>ID = 7, Name = ''build'', Status = ''running''\<rparr>,
       [(Fetched (unlines [''a'']), Fetched \<lparr>ID = 7, Name = ''build'', Status = ''success''\<rparr>),
        (Fetched (unlines [''a'', ''b'', ''c'']),
         Fetched \<lparr>ID = 7, Name = ''build'', Status = ''success''\<rparr>)])] 20 [0, 1, 1, 0] =
   ([GetTraceFile 1, Check ''timeout''], CheckNoReturn, None)
   \<and> TraceRunningJobs \<lparr>Check_returns = True, RandomColor = (\<lambda>s. s)\<rparr>
     [(\<lparr>ID = 7, Name = ''build'', Status = ''running''\<rparr>,
       [(Fetched (unlines [''a'']), Fetched \<lparr>ID = 7, Name = ''build'', Status = ''success''\<rparr>),
        (Fetched (unlines [''a'', ''b'', ''c'']),
         Fetched \<lparr>ID = 7, Name = ''build'', Status = ''success''\<rparr>)])] 20 [0, 0] =
   ([GetTraceFile 7, Println ''[build] a'', GetJob 7,
     GetTraceFile 7, Println ''[build] c'', Println ''[build] ''],
    Returned, Some False)"
  by (simp add: TraceRunningJobs_def IsRunning_def DoTrace_loop_fetch_error
        build_first_tick build_second_tick del: DoTrace_loop.simps(2))

section \<open>What is printed of a line with clear-line sequences\<close>

lemma DoTrace_one_line:
  assumes "IsRunning (Status j)" and "newline \<notin> set line" and "1 < tailLine" and "tailLine < 2 ^ 63"
  shows "printed (log_of (DoTrace u j tailLine (polls [unlines [line]] [j]))) =
           [re_ReplaceAllString (RandomColor u (''['' @ Name j @ ''] '') @ line)]"
proof -
  from assms(2) have nl: "\<forall>l\<in>set [line]. newline \<notin> set l" by simp
  from tick_lines_first_unlines [OF nl _ assms(4), of "Some j"] assms(3)
  have first: "tick_lines tailLine \<lparr>offset = 0, firstTail = True, job = Some j\<rparr> (unlines [line]) =
      Inr ([line], \<lparr>offset = 2, firstTail = False, job = Some j\<rparr>)"
    by simp
  from assms(1) have run: "\<forall>j'\<in>set (j # [j]). IsRunning (Status j')" by simp
  from DoTrace_growing [of j "[j]" "[]" tailLine "unlines [line]" _ _ u, OF run _ first]
  show ?thesis
    by (simp del: re_ReplaceAllString.simps)
qed

text \<open>
  C8 (amended). Where the first ESC \<open>[0m\<close> of the printed text (the prefix followed by
  the line) has a \<open>[0K\<close> behind it on the line, the text is printed without the span from
  that ESC \<open>[0m\<close> up to and including the last such \<open>[0K\<close>, and with everything before
  and behind the span unchanged. The artifact ESC \<open>[0m\<close> ESC \<open>[0K\<close> is the case in which
  the span holds nothing but one ESC between the two. The second part says it of the
  line as \<open>DoTrace\<close> prints it at the first poll of a trace that is this one line.
\<close>

theorem DoTrace_prints_without_span:
  assumes "RandomColor u (''['' @ Name j @ ''] '') @ line = a @ esc0m @ m @ clr0K @ b"
    and "\<not> occurs_in esc0m a" and "newline \<notin> set m" and "\<not> occurs_in clr0K b"
  shows "re_ReplaceAllString (RandomColor u (''['' @ Name j @ ''] '') @ line) = a @ b
       \<and> (IsRunning (Status j) \<and> newline \<notin> set line \<and> 1 < tailLine \<and> tailLine < 2 ^ 63 \<longrightarrow>
            printed (log_of (DoTrace u j tailLine (polls [unlines [line]] [j]))) = [a @ b])"
  using re_span [OF assms(2-4)] DoTrace_one_line [of j line tailLine u] assms(1)
  by (simp del: re_ReplaceAllString.simps)

theorem DoTrace_prints_without_span_witness:
  "re_ReplaceAllString
     (RandomColor \<lparr>Check_returns = False, RandomColor = (\<lambda>s. s)\<rparr>
        (''['' @ Name \<lparr>ID = 7, Name = ''build'', Status = ''running''\<rparr> @ ''] '') @
      (esc0m @ [CHR 0x1B] @ clr0K @ ''Start'')) = ''[build] Start''
   \<and> printed (log_of (DoTrace \<lparr>Check_returns = False, RandomColor = (\<lambda>s. s)\<rparr>
        \<lparr>ID = 7, Name = ''build'', Status = ''running''\<rparr> 20
        (polls [unlines [esc0m @ [CHR 0x1B] @ clr0K @ ''Start'']]
               [\<lparr>ID = 7, Name = ''build'', Status = ''running''\<rparr>]))) = [''[build] Start'']"
proof -
  let ?u = "\<lparr>Check_returns = False, RandomColor = (\<lambda>s. s)\<rparr>"
  let ?j = "\<lparr>ID = 7, Name = ''build'', Status = ''running''\<rparr>"
  let ?line = "esc0m @ [CHR 0x1B] @ clr0K @ ''Start''"
  have a: "\<not> occurs_in esc0m ''[build] ''"
    by (simp add: esc0m_def strings_HasPrefix_def)
  have m: "newline \<notin> set [CHR 0x1B]"
    by (simp add: newline_def)
  have b: "\<not> occurs_in clr0K ''Start''"
    by (simp add: clr0K_def strings_HasPrefix_def)
  have d: "RandomColor ?u (''['' @ Name ?j @ ''] '') @ ?line =
          ''[build] '' @ esc0m @ [CHR 0x1B] @ clr0K @ ''Start''"
    by simp
  have h: "IsRunning (Status ?j) \<and> newline \<notin> set ?line \<and> 1 < (20::int) \<and> (20::int) < 2 ^ 63"
    by (simp add: IsRunning_def newline_def esc0m_def clr0K_def)
  from DoTrace_prints_without_span [OF d a m b, of 20] h show ?thesis
    by (simp del: re_ReplaceAllString.simps)
qed

lemma re_compiling_done:
  "re_ReplaceAllString
     (''[build] '' @ (esc0m @ [CHR 0x1B] @ clr0K @ ''compiling'' @ [CHR 0x1B] @ clr0K @ ''done'')) =
   ''[build] done''"
  by (simp add: esc0m_def clr0K_def re_match_def strings_HasPrefix_def newline_def)

lemma re_compiling_done_colored:
  "re_ReplaceAllString
     (([CHR 0x1B] @ ''[32m'' @ ''[build] '' @ esc0m) @
      (esc0m @ [CHR 0x1B] @ clr0K @ ''compiling'' @ [CHR 0x1B] @ clr0K @ ''done'')) =
   [CHR 0x1B] @ ''[32m[build] done''"
  by (simp add: esc0m_def clr0K_def re_match_def strings_HasPrefix_def newline_def)

text \<open>
  C8 as stated fails. The line ESC \<open>[0m\<close> ESC \<open>[0K\<close> \<open>compiling\<close> ESC \<open>[0K\<close> \<open>done\<close> holds
  the artifact at its start; without the artifact it reads \<open>compiling\<close> ESC \<open>[0K\<close>
  \<open>done\<close>. What is printed behind the prefix is \<open>done\<close> alone: the pattern's \<open>.*\<close> runs
  on to the last \<open>[0K\<close> of the line and takes \<open>compiling\<close> with it. This is so for a
  plain prefix, and also for a coloured one that ends with ESC \<open>[0m\<close>, where the span
  starts in the prefix.
\<close>

theorem DoTrace_strips_text_counterexample:
  "printed (log_of (DoTrace \<lparr>Check_returns = False, RandomColor = (\<lambda>s. s)\<rparr>
        \<lparr>ID = 7, Name = ''build'', Status = ''running''\<rparr> 20
        (polls [unlines [esc0m @ [CHR 0x1B] @ clr0K @ ''compiling'' @ [CHR 0x1B] @ clr0K @ ''done'']]
               [\<lparr>ID = 7, Name = ''build'', Status = ''running''\<rparr>]))) =
     [''[build] done'']
   \<and> printed (log_of (DoTrace
        \<lparr>Check_returns = False, RandomColor = (\<lambda>s. [CHR 0x1B] @ ''[32m'' @ s @ esc0m)\<rparr>
        \<lparr>ID = 7, Name = ''build'', Status = ''running''\<rparr> 20
        (polls [unlines [esc0m @ [CHR 0x1B] @ clr0K @ ''compiling'' @ [CHR 0x1B] @ clr0K @ ''done'']]
               [\<lparr>ID = 7, Name = ''build'', Status = ''running''\<rparr>]))) =
     [[CHR 0x1B] @ ''[32m[build] done'']"
proof -
  let ?j = "\<lparr>ID = 7, Name = ''build'', Status = ''running''\<rparr>"
  let ?line = "esc0m @ [CHR 0x1B] @ clr0K @ ''compiling'' @ [CHR 0x1B] @ clr0K @ ''done''"
  have run: "IsRunning (Status ?j)"
    by (simp add: IsRunning_def)
  have nl: "newline \<notin> set ?line"
    by (simp add: newline_def esc0m_def clr0K_def)
  note one = DoTrace_one_line [OF run nl, of 20]
  from one [of "\<lparr>Check_returns = False, RandomColor = (\<lambda>s. s)\<rparr>"] re_compiling_done
  have plain: "printed (log_of (DoTrace \<lparr>Check_returns = False, RandomColor = (\<lambda>s. s)\<rparr> ?j 20
                 (polls [unlines [?line]] [?j]))) = [''[build] done'']"
    by (simp del: re_ReplaceAllString.simps)
  from one [of "\<lparr>Check_returns = False, RandomColor = (\<lambda>s. [CHR 0x1B] @ ''[32m'' @ s @ esc0m)\<rparr>"]
    re_compiling_done_colored
  have coloured: "printed (log_of (DoTrace
        \<lparr>Check_returns = False, RandomColor = (\<lambda>s. [CHR 0x1B] @ ''[32m'' @ s @ esc0m)\<rparr> ?j 20
        (polls [unlines [?line]] [?j]))) = [[CHR 0x1B] @ ''[32m[build] done'']"
    by (simp del: re_ReplaceAllString.simps)
  from plain coloured show ?thesis by simp
qed

end
